theory Spec2Isabelle
  imports Main "HOL-Library.Word" "HOL-Library.Multiset"
begin

unbundle bit_operations_syntax

section \<open>JavaScript values\<close>

text \<open>
  The workers are plain JavaScript. Article objects, ledger entries and the blobs read
  from the key-value store are dynamically typed, and the code tests them with
  truthiness, \<^verbatim>\<open>typeof\<close> and \<^verbatim>\<open>Number.isFinite\<close>; the model keeps that.

  A number is an integer (every number the code handles is an epoch-millisecond count
  or comes from \<^verbatim>\<open>Date.parse\<close>), \<^verbatim>\<open>NaN\<close> or an infinity.
  A string is a \<^typ>\<open>string\<close>, one \<^typ>\<open>char\<close> per UTF-16 code unit (code units
  below 256 only). An absent property is \<open>Undefined\<close>. Arrays and objects are kept as
  trees; reference identity of nested objects is not modelled. An object is the list of its
  own properties. \<open>Builtin\<close> is a function of the standard library, named by its path: a
  property read on a primitive can return one.
\<close>

datatype jsnum = Fin int | NaN | PInf | NInf

datatype jsval =
    Undefined
  | Null
  | Bool bool
  | Num jsnum
  | Str string
  | Arr "jsval list"
  | Obj "(string \<times> jsval) list"
  | Builtin string

datatype exn = TypeError | RangeError | SyntaxError | HostError

text \<open>Truthiness (\<^verbatim>\<open>if (v)\<close>, \<^verbatim>\<open>!v\<close>, \<^verbatim>\<open>v || w\<close>, \<^verbatim>\<open>Boolean(v)\<close>).\<close>

fun truthy :: "jsval \<Rightarrow> bool" where
  "truthy Undefined = False"
| "truthy Null = False"
| "truthy (Bool b) = b"
| "truthy (Num (Fin i)) = (i \<noteq> 0)"
| "truthy (Num NaN) = False"
| "truthy (Num PInf) = True"
| "truthy (Num NInf) = True"
| "truthy (Str s) = (s \<noteq> [])"
| "truthy (Arr xs) = True"
| "truthy (Obj fs) = True"
| "truthy (Builtin f) = True"

text \<open>\<^verbatim>\<open>a || b\<close> on values.\<close>

definition js_or :: "jsval \<Rightarrow> jsval \<Rightarrow> jsval" where
  "js_or a b = (if truthy a then a else b)"

text \<open>\<^verbatim>\<open>typeof v === 'string'\<close>.\<close>

fun is_string :: "jsval \<Rightarrow> bool" where
  "is_string (Str s) = True"
| "is_string v = False"

text \<open>\<^verbatim>\<open>Number.isFinite(v)\<close>: no coercion, true on finite numbers only.\<close>

fun Number_isFinite :: "jsval \<Rightarrow> bool" where
  "Number_isFinite (Num (Fin i)) = True"
| "Number_isFinite v = False"

text \<open>
  \<^verbatim>\<open>a !== b\<close>. On primitives strict equality is equality of values, except that
  \<^verbatim>\<open>NaN\<close> differs from itself. Every use in the code has a parsed feed field
  on one side.
\<close>

definition strict_neq :: "jsval \<Rightarrow> jsval \<Rightarrow> bool" where
  "strict_neq a b = (a \<noteq> b \<or> a = Num NaN)"

text \<open>
  \<^verbatim>\<open>String.prototype.trim\<close>: white space and line terminators among the code
  units below 256 are tab, LF, VT, FF, CR, space and the no-break space.
\<close>

definition isWhite :: "char \<Rightarrow> bool" where
  "isWhite c = ((of_char c :: nat) \<in> {9, 10, 11, 12, 13, 32, 160})"

definition trim :: "string \<Rightarrow> string" where
  "trim s = rev (dropWhile isWhite (rev (dropWhile isWhite s)))"

section \<open>Articles and the sent ledger\<close>

text \<open>
  A tracked article (and a parsed feed item, which has no \<open>sent\<close> and \<open>sentAt\<close>) is a
  JavaScript object with these properties.
\<close>

record article =
  link :: jsval
  title :: jsval
  description :: jsval
  thumbnail :: jsval
  guid :: jsval
  publishedAt :: jsval
  publishedAtMs :: jsval
  sent :: jsval
  sentAt :: jsval

text \<open>A value of the ledger: \<^verbatim>\<open>{ sentAt, identity }\<close>.\<close>

record sent_entry =
  e_sentAt :: jsval
  e_identity :: jsval

text \<open>
  A JavaScript \<^verbatim>\<open>Map\<close> keeps its entries in insertion order, one per key:
  \<^verbatim>\<open>set\<close> on a present key replaces the value in place, on a new key appends.
\<close>

type_synonym ('k, 'v) jsmap = "('k \<times> 'v) list"

definition Map_get :: "('k, 'v) jsmap \<Rightarrow> 'k \<Rightarrow> 'v option" where
  "Map_get m k = map_of m k"

fun Map_set :: "('k, 'v) jsmap \<Rightarrow> 'k \<Rightarrow> 'v \<Rightarrow> ('k, 'v) jsmap" where
  "Map_set [] k v = [(k, v)]"
| "Map_set (p # ps) k v = (if fst p = k then (k, v) # ps else p # Map_set ps k v)"

definition Map_delete :: "('k, 'v) jsmap \<Rightarrow> 'k \<Rightarrow> ('k, 'v) jsmap" where
  "Map_delete m k = filter (\<lambda>p. fst p \<noteq> k) m"

type_synonym sentMap = "(string, sent_entry) jsmap"

subsection \<open>getArticleIdentity\<close>

text \<open>
  \<^verbatim>\<open>
  if (article.guid && typeof article.guid === 'string' && article.guid.trim()) return article.guid.trim();
  if (article.link && typeof article.link === 'string' && article.link.trim()) return article.link.trim();
  return null;
  \<close>
\<close>

fun trimmedText :: "jsval \<Rightarrow> string option" where
  "trimmedText (Str s) = (if s \<noteq> [] \<and> trim s \<noteq> [] then Some (trim s) else None)"
| "trimmedText v = None"

definition getArticleIdentity :: "article \<Rightarrow> string option" where
  "getArticleIdentity a =
     (case trimmedText (guid a) of
        Some g \<Rightarrow> Some g
      | None \<Rightarrow> (case trimmedText (link a) of Some l \<Rightarrow> Some l | None \<Rightarrow> None))"

subsection \<open>hashIdentifier\<close>

text \<open>
  FNV-1a on 32 bits: \<^verbatim>\<open>hash ^= charCodeAt(i); hash = Math.imul(hash, 0x01000193); hash >>>= 0\<close>,
  printed as eight lower-case hexadecimal digits.
\<close>

definition fnv_step :: "32 word \<Rightarrow> char \<Rightarrow> 32 word" where
  "fnv_step hash c = (hash XOR of_nat (of_char c)) * 0x01000193"

definition hexDigit :: "nat \<Rightarrow> char" where
  "hexDigit d = (''0123456789abcdef'' ! d)"

definition toHex8 :: "32 word \<Rightarrow> string" where
  "toHex8 w = map (\<lambda>i. hexDigit (unat (drop_bit (4 * i) w AND 15))) [7, 6, 5, 4, 3, 2, 1, 0]"

definition hashIdentifier :: "string \<Rightarrow> string" where
  "hashIdentifier v = toHex8 (foldl fnv_step 0x811c9dc5 v)"

subsection \<open>setSentEntry\<close>

text \<open>
  \<open>now\<close> is \<^verbatim>\<open>new Date().toISOString()\<close> at the call. Returns the ledger and
  the boolean result.
\<close>

definition setSentEntry :: "string \<Rightarrow> sentMap \<Rightarrow> article \<Rightarrow> sentMap \<times> bool" where
  "setSentEntry now sentMap a =
     (case getArticleIdentity a of
        None \<Rightarrow> (sentMap, False)
      | Some identity \<Rightarrow>
          (let hash = hashIdentifier identity;
               sentAt' = (case sentAt a of Str s \<Rightarrow> s | _ \<Rightarrow> now);
               prev = Map_get sentMap hash
           in if (case prev of Some p \<Rightarrow> e_sentAt p = Str sentAt' | None \<Rightarrow> False)
              then (sentMap, False)
              else (Map_set sentMap hash \<lparr>e_sentAt = Str sentAt', e_identity = Str identity\<rparr>, True)))"

subsection \<open>markPreviouslySentArticles\<close>

text \<open>
  The loop body on one article: \<open>None\<close> is a \<^verbatim>\<open>continue\<close>, \<open>Some a'\<close> the
  article after \<^verbatim>\<open>article.sent = true\<close> and the conditional copy of \<open>sentAt\<close>.
\<close>

definition markArticle :: "sentMap \<Rightarrow> article \<Rightarrow> article option" where
  "markArticle sentMap a =
     (if truthy (sent a) then None
      else case getArticleIdentity a of
             None \<Rightarrow> None
           | Some identity \<Rightarrow>
               (case Map_get sentMap (hashIdentifier identity) of
                  None \<Rightarrow> None
                | Some entry \<Rightarrow>
                    (let a1 = a\<lparr>sent := Bool True\<rparr>
                     in Some (if \<not> truthy (sentAt a1) \<and> truthy (e_sentAt entry)
                              then a1\<lparr>sentAt := e_sentAt entry\<rparr> else a1))))"

text \<open>The loop, threading \<open>mutated\<close>; the articles are mutated in place.\<close>

fun markLoop :: "sentMap \<Rightarrow> article list \<Rightarrow> bool \<Rightarrow> article list \<times> bool" where
  "markLoop sentMap [] mutated = ([], mutated)"
| "markLoop sentMap (a # as) mutated =
     (case markArticle sentMap a of
        None \<Rightarrow> (let (as', m) = markLoop sentMap as mutated in (a # as', m))
      | Some a' \<Rightarrow> (let (as', m) = markLoop sentMap as True in (a' # as', m)))"

definition markPreviouslySentArticles :: "article list \<Rightarrow> sentMap \<Rightarrow> article list \<times> bool" where
  "markPreviouslySentArticles articles sentMap = markLoop sentMap articles False"

section \<open>Array.prototype.sort\<close>

text \<open>
  The comparator returns a number (or throws); a positive result puts the first
  argument after the second, \<^verbatim>\<open>NaN\<close> counts as zero. The sort is stable. It is
  modelled as insertion from the right, which yields the one stable sorted arrangement
  whenever the comparator is a consistent total preorder; which comparisons the host
  performs otherwise is not fixed by the language.
\<close>

fun num_pos :: "jsnum \<Rightarrow> bool" where
  "num_pos (Fin i) = (0 < i)"
| "num_pos PInf = True"
| "num_pos NaN = False"
| "num_pos NInf = False"

fun sortInsert :: "('a \<Rightarrow> 'a \<Rightarrow> exn + jsnum) \<Rightarrow> 'a \<Rightarrow> 'a list \<Rightarrow> exn + 'a list" where
  "sortInsert cmp x [] = Inr [x]"
| "sortInsert cmp x (y # ys) =
     (case cmp x y of
        Inl e \<Rightarrow> Inl e
      | Inr v \<Rightarrow>
          if num_pos v
          then (case sortInsert cmp x ys of Inl e \<Rightarrow> Inl e | Inr r \<Rightarrow> Inr (y # r))
          else Inr (x # y # ys))"

fun Array_sort :: "('a \<Rightarrow> 'a \<Rightarrow> exn + jsnum) \<Rightarrow> 'a list \<Rightarrow> exn + 'a list" where
  "Array_sort cmp [] = Inr []"
| "Array_sort cmp (x # xs) =
     (case Array_sort cmp xs of Inl e \<Rightarrow> Inl e | Inr s \<Rightarrow> sortInsert cmp x s)"

text \<open>Subtraction of numbers, as far as the comparators use it.\<close>

fun num_sub :: "jsnum \<Rightarrow> jsnum \<Rightarrow> jsnum" where
  "num_sub (Fin a) (Fin b) = Fin (a - b)"
| "num_sub NaN y = NaN"
| "num_sub x NaN = NaN"
| "num_sub PInf PInf = NaN"
| "num_sub NInf NInf = NaN"
| "num_sub PInf y = PInf"
| "num_sub NInf y = NInf"
| "num_sub (Fin a) PInf = NInf"
| "num_sub (Fin a) NInf = PInf"

section \<open>mergeArticles\<close>

text \<open>
  Host functions are parameters: \<open>Date_parse v\<close> is \<^verbatim>\<open>Date.parse(v)\<close>,
  \<open>toISOString v\<close> is \<^verbatim>\<open>new Date(v).toISOString()\<close> (a \<^verbatim>\<open>RangeError\<close> on an
  invalid date) and \<open>localeCompare s v\<close> is \<^verbatim>\<open>s.localeCompare(v)\<close> for a string
  \<open>s\<close>.
\<close>

type_synonym articleMap = "(jsval, article) jsmap"

text \<open>The object literal of the first loop; only \<^verbatim>\<open>toISOString\<close> can throw.\<close>

definition seedArticle ::
  "(jsval \<Rightarrow> jsnum) \<Rightarrow> (jsval \<Rightarrow> exn + string) \<Rightarrow> article \<Rightarrow> exn + article" where
  "seedArticle Date_parse toISOString a =
     (case (if truthy (publishedAt a) then Inr (publishedAt a)
            else if truthy (publishedAtMs a)
                 then (case toISOString (publishedAtMs a) of Inl e \<Rightarrow> Inl e | Inr s \<Rightarrow> Inr (Str s))
                 else Inr Null) of
        Inl e \<Rightarrow> Inl e
      | Inr pa \<Rightarrow>
          Inr (a\<lparr> sent := Bool (truthy (sent a)),
                  sentAt := js_or (sentAt a) Null,
                  guid := (if is_string (guid a) then guid a else Null),
                  publishedAtMs :=
                    (if Number_isFinite (publishedAtMs a) then publishedAtMs a
                     else if truthy (publishedAt a) then Num (Date_parse (publishedAt a))
                     else Null),
                  publishedAt := pa \<rparr>))"

fun seedLoop ::
  "(jsval \<Rightarrow> jsnum) \<Rightarrow> (jsval \<Rightarrow> exn + string) \<Rightarrow> article list \<Rightarrow> articleMap \<Rightarrow> exn + articleMap" where
  "seedLoop Date_parse toISOString [] m = Inr m"
| "seedLoop Date_parse toISOString (a # as) m =
     (if \<not> truthy (link a) then seedLoop Date_parse toISOString as m
      else case seedArticle Date_parse toISOString a of
             Inl e \<Rightarrow> Inl e
           | Inr a' \<Rightarrow> seedLoop Date_parse toISOString as (Map_set m (link a) a'))"

text \<open>\<^verbatim>\<open>item.f && item.f !== existing.f\<close>.\<close>

definition fieldDiffers :: "jsval \<Rightarrow> jsval \<Rightarrow> bool" where
  "fieldDiffers new old = (truthy new \<and> strict_neq new old)"

text \<open>
  The five conditional assignments on \<^verbatim>\<open>next = { ...existing }\<close>; \<open>updated\<close> is
  true when one of them ran.
\<close>

definition updateExisting :: "article \<Rightarrow> article \<Rightarrow> article \<times> bool" where
  "updateExisting existing item =
     (let u1 = fieldDiffers (title item) (title existing);
          next1 = (if u1 then existing\<lparr>title := title item\<rparr> else existing);
          u2 = fieldDiffers (description item) (description existing);
          next2 = (if u2 then next1\<lparr>description := description item\<rparr> else next1);
          u3 = fieldDiffers (thumbnail item) (thumbnail existing);
          next3 = (if u3 then next2\<lparr>thumbnail := thumbnail item\<rparr> else next2);
          u4 = fieldDiffers (guid item) (guid existing);
          next4 = (if u4 then next3\<lparr>guid := guid item\<rparr> else next3);
          u5 = fieldDiffers (publishedAt item) (publishedAt existing);
          next5 = (if u5 then next4\<lparr>publishedAt := publishedAt item,
                                     publishedAtMs := publishedAtMs item\<rparr> else next4)
      in (next5, u1 \<or> u2 \<or> u3 \<or> u4 \<or> u5))"

definition newArticle :: "article \<Rightarrow> article" where
  "newArticle item =
     \<lparr> link = link item, title = title item, description = description item,
       thumbnail = thumbnail item, guid = js_or (guid item) Null,
       publishedAt = publishedAt item, publishedAtMs = publishedAtMs item,
       sent = Bool False, sentAt = Null \<rparr>"

fun itemLoop :: "article list \<Rightarrow> articleMap \<times> bool \<Rightarrow> articleMap \<times> bool" where
  "itemLoop [] (m, hasChanges) = (m, hasChanges)"
| "itemLoop (item # items) (m, hasChanges) =
     (if \<not> truthy (link item) then itemLoop items (m, hasChanges)
      else case Map_get m (link item) of
             Some existing \<Rightarrow>
               (let (next, updated) = updateExisting existing item
                in if updated then itemLoop items (Map_set m (link item) next, True)
                   else itemLoop items (m, hasChanges))
           | None \<Rightarrow> itemLoop items (Map_set m (link item) (newArticle item), True))"

text \<open>The comparator of the final sort.\<close>

definition timeKey :: "article \<Rightarrow> jsnum" where
  "timeKey a = (if Number_isFinite (publishedAtMs a)
                then (case publishedAtMs a of Num n \<Rightarrow> n | _ \<Rightarrow> PInf) else PInf)"

definition compareArticles :: "(string \<Rightarrow> jsval \<Rightarrow> int) \<Rightarrow> article \<Rightarrow> article \<Rightarrow> exn + jsnum" where
  "compareArticles localeCompare a b =
     (let aTime = timeKey a; bTime = timeKey b
      in if aTime \<noteq> bTime then Inr (num_sub aTime bTime)
         else (case link a of
                 Str s \<Rightarrow> Inr (Fin (localeCompare s (link b)))
               | _ \<Rightarrow> Inl TypeError))"

definition mergeArticles ::
  "(jsval \<Rightarrow> jsnum) \<Rightarrow> (jsval \<Rightarrow> exn + string) \<Rightarrow> (string \<Rightarrow> jsval \<Rightarrow> int) \<Rightarrow>
   article list \<Rightarrow> article list \<Rightarrow> exn + (article list \<times> bool)" where
  "mergeArticles Date_parse toISOString localeCompare existingArticles newItems =
     (case seedLoop Date_parse toISOString existingArticles [] of
        Inl e \<Rightarrow> Inl e
      | Inr articleMap \<Rightarrow>
          (let (m, hasChanges) = itemLoop newItems (articleMap, False)
           in case Array_sort (compareArticles localeCompare) (map snd m) of
                Inl e \<Rightarrow> Inl e
              | Inr articles \<Rightarrow> Inr (articles, hasChanges)))"

section \<open>processRSS: selection and the delivery loop\<close>

text \<open>
  \<^verbatim>\<open>articles.filter(article => !article.sent).slice(0, sendLimit)\<close> holds the very
  objects of \<^verbatim>\<open>articles\<close>, and the loop mutates them. The model names an object by
  its position in \<open>articles\<close>: the queue is a list of positions, and a mutation is a
  list update.
\<close>

definition MAX_ITEMS_PER_SEND :: nat where
  "MAX_ITEMS_PER_SEND = 5"

definition sendLimit :: "bool \<Rightarrow> nat" where
  "sendLimit testMode = (if testMode then 1 else MAX_ITEMS_PER_SEND)"

definition unsentQueue :: "article list \<Rightarrow> nat list" where
  "unsentQueue as = filter (\<lambda>i. \<not> truthy (sent (as ! i))) [0..<length as]"

definition toSend :: "nat \<Rightarrow> article list \<Rightarrow> nat list" where
  "toSend limit as = take limit (unsentQueue as)"

text \<open>
  The state of the loop. \<open>ls_calls\<close> is not a variable of the code: it records, in
  call order, the position of the article handed to each \<^verbatim>\<open>sendToDiscord\<close> call.
\<close>

record loop_state =
  ls_articles :: "article list"
  ls_sentMap :: sentMap
  ls_sentMapDirty :: bool
  ls_successCount :: nat
  ls_sendSuccess :: bool
  ls_calls :: "nat list"

text \<open>
  \<open>sink k a\<close> is the outcome of the \<open>k\<close>-th \<^verbatim>\<open>sendToDiscord\<close> call of the cycle
  (\<open>Inr True\<close> accepted, \<open>Inr False\<close> rejected, \<open>Inl e\<close> a failed \<^verbatim>\<open>fetch\<close>, which
  leaves the loop through the \<^verbatim>\<open>catch\<close> of \<^verbatim>\<open>processRSS\<close>);
  \<open>clock k\<close> is \<^verbatim>\<open>new Date().toISOString()\<close> after it.
\<close>

definition deliverStep ::
  "(nat \<Rightarrow> article \<Rightarrow> exn + bool) \<Rightarrow> (nat \<Rightarrow> string) \<Rightarrow> nat \<Rightarrow> loop_state \<Rightarrow> exn + loop_state" where
  "deliverStep sink clock i st =
     (let a = ls_articles st ! i;
          k = length (ls_calls st);
          st1 = st\<lparr>ls_calls := ls_calls st @ [i]\<rparr>
      in case sink k a of
           Inl e \<Rightarrow> Inl e
         | Inr ok \<Rightarrow>
             if ok
             then (let a' = a\<lparr>sent := Bool True, sentAt := Str (clock k)\<rparr>;
                       (sm, changed) = setSentEntry (clock k) (ls_sentMap st1) a'
                   in Inr (st1\<lparr> ls_articles := (ls_articles st1)[i := a'],
                                ls_sentMap := sm,
                                ls_sentMapDirty := (ls_sentMapDirty st1 \<or> changed),
                                ls_successCount := ls_successCount st1 + 1,
                                ls_sendSuccess := True \<rparr>))
             else Inr st1)"

fun deliverLoop ::
  "(nat \<Rightarrow> article \<Rightarrow> exn + bool) \<Rightarrow> (nat \<Rightarrow> string) \<Rightarrow> nat list \<Rightarrow> loop_state \<Rightarrow> exn + loop_state" where
  "deliverLoop sink clock [] st = Inr st"
| "deliverLoop sink clock (i # is) st =
     (case deliverStep sink clock i st of
        Inl e \<Rightarrow> Inl e
      | Inr st' \<Rightarrow> deliverLoop sink clock is st')"

text \<open>
  One cycle of \<^verbatim>\<open>processRSS\<close> from the merge on. \<open>stateArticles\<close> and \<open>exists\<close>
  come from \<^verbatim>\<open>loadDailyState\<close>, \<open>sentMap\<close> and \<open>sentMapDirty\<close> from
  \<^verbatim>\<open>loadSentMap\<close> and \<^verbatim>\<open>pruneSentMap\<close>, \<open>parsedItems\<close> from the feed.
  \<open>r_saveState\<close> and \<open>r_saveSent\<close> tell whether the bucket and the ledger are written.
\<close>

record cycle_result =
  r_articles :: "article list"
  r_sentMap :: sentMap
  r_calls :: "nat list"
  r_saveState :: bool
  r_saveSent :: bool

definition processRSS ::
  "(jsval \<Rightarrow> jsnum) \<Rightarrow> (jsval \<Rightarrow> exn + string) \<Rightarrow> (string \<Rightarrow> jsval \<Rightarrow> int) \<Rightarrow>
   (nat \<Rightarrow> article \<Rightarrow> exn + bool) \<Rightarrow> (nat \<Rightarrow> string) \<Rightarrow>
   bool \<Rightarrow> article list \<Rightarrow> bool \<Rightarrow> sentMap \<Rightarrow> bool \<Rightarrow> article list \<Rightarrow> exn + cycle_result" where
  "processRSS Date_parse toISOString localeCompare sink clock
              testMode stateArticles exists sentMap sentMapDirty parsedItems =
     (case mergeArticles Date_parse toISOString localeCompare stateArticles parsedItems of
        Inl e \<Rightarrow> Inl e
      | Inr (articles, hasChanges) \<Rightarrow>
          (let (articles1, alreadySentUpdated) = markPreviouslySentArticles articles sentMap;
               queue = toSend (sendLimit testMode) articles1
           in case deliverLoop sink clock queue
                     \<lparr> ls_articles = articles1, ls_sentMap = sentMap,
                       ls_sentMapDirty = sentMapDirty, ls_successCount = 0,
                       ls_sendSuccess = False, ls_calls = [] \<rparr> of
                Inl e \<Rightarrow> Inl e
              | Inr st \<Rightarrow>
                  Inr \<lparr> r_articles = ls_articles st, r_sentMap = ls_sentMap st,
                        r_calls = ls_calls st,
                        r_saveState = (hasChanges \<or> ls_sendSuccess st \<or> alreadySentUpdated \<or> \<not> exists),
                        r_saveSent = ls_sentMapDirty st \<rparr>))"

section \<open>pruneSentMap\<close>

text \<open>
  The worker of \<^verbatim>\<open>ffxiv-tw-news-api.js\<close> prunes its ledger in two passes: a cleanup of the
  entries whose \<^verbatim>\<open>sentAt\<close> is unusable, then a cut to \<^verbatim>\<open>MAX_SENT_MAP_SIZE\<close> entries, oldest
  first. The capacity is a parameter of \<open>pruneSentMapWith\<close>; \<open>pruneSentMap\<close> is the function of
  the source. The entries of the ledger are objects: the test \<^verbatim>\<open>!entry\<close> of the source is never true
  on a \<^typ>\<open>sent_entry\<close>. The loops run over the entries the map had when the loop began and
  delete from the map as they go.
\<close>

definition MAX_SENT_MAP_SIZE :: nat where
  "MAX_SENT_MAP_SIZE = 500"

fun pruneInvalid ::
  "(jsval \<Rightarrow> jsnum) \<Rightarrow> (string \<times> sent_entry) list \<Rightarrow> sentMap \<times> bool \<Rightarrow> sentMap \<times> bool" where
  "pruneInvalid Date_parse [] (sentMap, mutated) = (sentMap, mutated)"
| "pruneInvalid Date_parse ((hash, entry) # rest) (sentMap, mutated) =
     (if \<not> is_string (e_sentAt entry)
      then pruneInvalid Date_parse rest (Map_delete sentMap hash, True)
      else if \<not> Number_isFinite (Num (Date_parse (e_sentAt entry)))
           then pruneInvalid Date_parse rest (Map_delete sentMap hash, True)
           else pruneInvalid Date_parse rest (sentMap, mutated))"

definition compareSentAt ::
  "(jsval \<Rightarrow> jsnum) \<Rightarrow> string \<times> sent_entry \<Rightarrow> string \<times> sent_entry \<Rightarrow> exn + jsnum" where
  "compareSentAt Date_parse a b =
     Inr (num_sub (Date_parse (e_sentAt (snd a))) (Date_parse (e_sentAt (snd b))))"

definition pruneSentMapWith ::
  "nat \<Rightarrow> (jsval \<Rightarrow> jsnum) \<Rightarrow> sentMap \<Rightarrow> exn + (sentMap \<times> bool)" where
  "pruneSentMapWith maxSize Date_parse sentMap0 =
     (let (sentMap, mutated) = pruneInvalid Date_parse sentMap0 (sentMap0, False)
      in if length sentMap > maxSize
         then (case Array_sort (compareSentAt Date_parse) sentMap of
                 Inl e \<Rightarrow> Inl e
               | Inr sortedEntries \<Rightarrow>
                   (let toDelete = take (length sentMap - maxSize) sortedEntries
                    in Inr (foldl (\<lambda>m p. Map_delete m (fst p)) sentMap toDelete, True)))
         else Inr (sentMap, mutated))"

definition pruneSentMap :: "(jsval \<Rightarrow> jsnum) \<Rightarrow> sentMap \<Rightarrow> exn + (sentMap \<times> bool)" where
  "pruneSentMap = pruneSentMapWith MAX_SENT_MAP_SIZE"

text \<open>
  The multi-feed worker has its own \<^verbatim>\<open>pruneSentMap\<close>, which deletes by age: the time of the
  call, \<^verbatim>\<open>Date.now()\<close>, is the parameter \<open>now\<close>.
\<close>

definition SENT_MAP_TTL_SECONDS_multiRSS :: int where
  "SENT_MAP_TTL_SECONDS_multiRSS = 2 * 24 * 60 * 60"

fun pruneLoop_multiRSS ::
  "(jsval \<Rightarrow> jsnum) \<Rightarrow> int \<Rightarrow> (string \<times> sent_entry) list \<Rightarrow> sentMap \<times> bool \<Rightarrow> sentMap \<times> bool" where
  "pruneLoop_multiRSS Date_parse cutoffMs [] (sentMap, mutated) = (sentMap, mutated)"
| "pruneLoop_multiRSS Date_parse cutoffMs ((hash, entry) # rest) (sentMap, mutated) =
     (if \<not> is_string (e_sentAt entry)
      then pruneLoop_multiRSS Date_parse cutoffMs rest (Map_delete sentMap hash, True)
      else (case Date_parse (e_sentAt entry) of
              Fin timestamp \<Rightarrow>
                if timestamp < cutoffMs
                then pruneLoop_multiRSS Date_parse cutoffMs rest (Map_delete sentMap hash, True)
                else pruneLoop_multiRSS Date_parse cutoffMs rest (sentMap, mutated)
            | _ \<Rightarrow> pruneLoop_multiRSS Date_parse cutoffMs rest (Map_delete sentMap hash, True)))"

definition pruneSentMap_multiRSS :: "(jsval \<Rightarrow> jsnum) \<Rightarrow> int \<Rightarrow> sentMap \<Rightarrow> sentMap \<times> bool" where
  "pruneSentMap_multiRSS Date_parse now sentMap =
     (let cutoffMs = now - SENT_MAP_TTL_SECONDS_multiRSS * 1000
      in pruneLoop_multiRSS Date_parse cutoffMs sentMap (sentMap, False))"

section \<open>Predicates used in the statements\<close>

text \<open>
  A property that is absent, not a string, or blank after trimming (every character is
  white space).
\<close>

fun blankOrAbsent :: "jsval \<Rightarrow> bool" where
  "blankOrAbsent (Str s) = list_all isWhite s"
| "blankOrAbsent v = True"

text \<open>One article after the body of the reconciliation loop.\<close>

definition markOne :: "sentMap \<Rightarrow> article \<Rightarrow> article" where
  "markOne sentMap a = (case markArticle sentMap a of None \<Rightarrow> a | Some a' \<Rightarrow> a')"

text \<open>An article with neither a usable \<open>guid\<close> nor a usable \<open>link\<close>.\<close>

definition blankArticle :: article where
  "blankArticle =
     \<lparr> link = Str '' '', title = Str ''t'', description = Str '''', thumbnail = Null,
       guid = Num (Fin 7), publishedAt = Null, publishedAtMs = Null,
       sent = Bool False, sentAt = Null \<rparr>"

text \<open>
  What one parsed item does to the entry found under its link (\<open>None\<close>: no entry), and
  whether that sets \<^verbatim>\<open>hasChanges\<close>.
\<close>

definition touch :: "article option \<Rightarrow> article \<Rightarrow> article" where
  "touch eo c = (case eo of None \<Rightarrow> newArticle c | Some ex \<Rightarrow> fst (updateExisting ex c))"

definition changes :: "article option \<Rightarrow> article \<Rightarrow> bool" where
  "changes eo c = (case eo of None \<Rightarrow> True | Some ex \<Rightarrow> snd (updateExisting ex c))"

text \<open>The article map is keyed by the link of its values, one entry per link, no falsy key.\<close>

definition mapInv :: "articleMap \<Rightarrow> bool" where
  "mapInv m \<longleftrightarrow> distinct (map fst m) \<and> (\<forall>(k, v)\<in>set m. link v = k \<and> truthy k)"

text \<open>
  The order the specification describes: ascending \<open>publishedAtMs\<close>, an article without
  a finite \<open>publishedAtMs\<close> after every article with one, ties broken by the link.
\<close>

definition finiteTime :: "article \<Rightarrow> int option" where
  "finiteTime a = (case publishedAtMs a of Num (Fin i) \<Rightarrow> Some i | _ \<Rightarrow> None)"

fun timeBefore :: "int option \<Rightarrow> int option \<Rightarrow> bool" where
  "timeBefore (Some x) (Some y) = (x < y)"
| "timeBefore (Some x) None = True"
| "timeBefore None t = False"

fun linkBefore :: "(string \<Rightarrow> jsval \<Rightarrow> int) \<Rightarrow> jsval \<Rightarrow> jsval \<Rightarrow> bool" where
  "linkBefore lc (Str x) (Str y) = (lc x (Str y) < 0)"
| "linkBefore lc v w = False"

definition precedes :: "(string \<Rightarrow> jsval \<Rightarrow> int) \<Rightarrow> article \<Rightarrow> article \<Rightarrow> bool" where
  "precedes lc a b =
     (timeBefore (finiteTime a) (finiteTime b) \<or>
      (finiteTime a = finiteTime b \<and> linkBefore lc (link a) (link b)))"

text \<open>
  What the theorems ask of the host's \<^verbatim>\<open>localeCompare\<close>: on the link strings at
  hand it is a strict total order (zero on equal strings only, antisymmetric, transitive).
\<close>

definition collation_on :: "string set \<Rightarrow> (string \<Rightarrow> jsval \<Rightarrow> int) \<Rightarrow> bool" where
  "collation_on S lc \<longleftrightarrow>
     (\<forall>x\<in>S. \<forall>y\<in>S. (lc x (Str y) = 0 \<longleftrightarrow> x = y) \<and> (lc x (Str y) < 0 \<longleftrightarrow> 0 < lc y (Str x)))
   \<and> (\<forall>x\<in>S. \<forall>y\<in>S. \<forall>z\<in>S. lc x (Str y) < 0 \<and> lc y (Str z) < 0 \<longrightarrow> lc x (Str z) < 0)"

text \<open>Every truthy link is a string of \<open>S\<close>.\<close>

definition linksIn :: "string set \<Rightarrow> article list \<Rightarrow> bool" where
  "linksIn S as \<longleftrightarrow> (\<forall>a\<in>set as. truthy (link a) \<longrightarrow> (\<exists>s\<in>S. link a = Str s))"

text \<open>
  A stored record without \<open>publishedAt\<close> has a \<open>publishedAtMs\<close> that is falsy (absent, null,
  0, NaN) or a finite number, as \<^verbatim>\<open>loadDailyState\<close> leaves it.
\<close>

definition timeFieldsOk :: "article \<Rightarrow> bool" where
  "timeFieldsOk a \<longleftrightarrow>
     truthy (publishedAt a) \<or> \<not> truthy (publishedAtMs a) \<or> Number_isFinite (publishedAtMs a)"

text \<open>
  A parsed item as \<^verbatim>\<open>parseRSSItems\<close> builds it: \<open>guid\<close> a string (possibly empty),
  \<open>publishedAt\<close> from \<^verbatim>\<open>toISOString()\<close>, \<open>publishedAtMs\<close> from \<^verbatim>\<open>getTime()\<close> of a
  valid date. The parser also skips a link it has seen.
\<close>

definition feedItem :: "article \<Rightarrow> bool" where
  "feedItem c \<longleftrightarrow>
     (truthy (guid c) \<longrightarrow> is_string (guid c)) \<and> truthy (publishedAt c)
   \<and> Number_isFinite (publishedAtMs c)"

text \<open>An article that the object literal of the first loop of \<open>mergeArticles\<close> leaves as it is.\<close>

definition seedFixed :: "(jsval \<Rightarrow> jsnum) \<Rightarrow> (jsval \<Rightarrow> exn + string) \<Rightarrow> article \<Rightarrow> bool" where
  "seedFixed dp toIso v \<longleftrightarrow> seedArticle dp toIso v = Inr v"

text \<open>
  The ledger entry stored under the hash of the article's identity (\<open>None\<close>: the article
  has no identity, or the ledger has no entry), and the article once the reconciliation
  loop has marked it: \<open>sent\<close> is true, and \<open>sentAt\<close> is the entry's when the article has
  none and the entry has one.
\<close>

definition ledgerEntry :: "sentMap \<Rightarrow> article \<Rightarrow> sent_entry option" where
  "ledgerEntry sentMap a =
     (case getArticleIdentity a of
        None \<Rightarrow> None
      | Some ident \<Rightarrow> Map_get sentMap (hashIdentifier ident))"

definition reconciled :: "article \<Rightarrow> sent_entry \<Rightarrow> article" where
  "reconciled a e =
     a\<lparr> sent := Bool True,
        sentAt := (if \<not> truthy (sentAt a) \<and> truthy (e_sentAt e) then e_sentAt e else sentAt a) \<rparr>"

text \<open>
  An entry of the ledger is well-formed when its \<^verbatim>\<open>sentAt\<close> is a string that parses to a finite
  time, which is then its \<open>sentTime\<close>; it is fresh when that time is not before the cutoff.
\<close>

definition entryValid :: "(jsval \<Rightarrow> jsnum) \<Rightarrow> string \<times> sent_entry \<Rightarrow> bool" where
  "entryValid Date_parse p \<longleftrightarrow>
     is_string (e_sentAt (snd p)) \<and> Number_isFinite (Num (Date_parse (e_sentAt (snd p))))"

definition sentTime :: "(jsval \<Rightarrow> jsnum) \<Rightarrow> string \<times> sent_entry \<Rightarrow> int" where
  "sentTime Date_parse p = (case Date_parse (e_sentAt (snd p)) of Fin t \<Rightarrow> t | _ \<Rightarrow> 0)"

definition entryFresh :: "(jsval \<Rightarrow> jsnum) \<Rightarrow> int \<Rightarrow> string \<times> sent_entry \<Rightarrow> bool" where
  "entryFresh Date_parse cutoffMs p \<longleftrightarrow>
     entryValid Date_parse p \<and> cutoffMs \<le> sentTime Date_parse p"

section \<open>Example data\<close>

text \<open>
  A host for the examples: comparison of strings by code units as the collation, and the
  two date functions on the two timestamps the examples use.
\<close>

fun strCompare :: "string \<Rightarrow> string \<Rightarrow> int" where
  "strCompare [] [] = 0"
| "strCompare [] (y # ys) = - 1"
| "strCompare (x # xs) [] = 1"
| "strCompare (x # xs) (y # ys) =
     (if (of_char x :: nat) < of_char y then - 1
      else if (of_char y :: nat) < of_char x then 1
      else strCompare xs ys)"

definition codeUnitCompare :: "string \<Rightarrow> jsval \<Rightarrow> int" where
  "codeUnitCompare x v = (case v of Str y \<Rightarrow> strCompare x y | _ \<Rightarrow> 0)"

definition exampleDateParse :: "jsval \<Rightarrow> jsnum" where
  "exampleDateParse v =
     (if v = Str ''2024-01-01T00:00:00.000Z'' then Fin 1704067200000
      else if v = Str ''2024-01-02T00:00:00.000Z'' then Fin 1704153600000
      else NaN)"

definition exampleToISOString :: "jsval \<Rightarrow> exn + string" where
  "exampleToISOString v =
     (if v = Num (Fin 1704067200000) then Inr ''2024-01-01T00:00:00.000Z''
      else if v = Num (Fin 1704153600000) then Inr ''2024-01-02T00:00:00.000Z''
      else Inl RangeError)"

definition itemA :: article where
  "itemA = \<lparr> link = Str ''a'', title = Str ''A'', description = Str ''first'', thumbnail = Null,
             guid = Str ''ga'', publishedAt = Str ''2024-01-01T00:00:00.000Z'',
             publishedAtMs = Num (Fin 1704067200000), sent = Undefined, sentAt = Undefined \<rparr>"

definition itemB :: article where
  "itemB = \<lparr> link = Str ''b'', title = Str ''B'', description = Str ''second'', thumbnail = Null,
             guid = Str '''', publishedAt = Str ''2024-01-02T00:00:00.000Z'',
             publishedAtMs = Num (Fin 1704153600000), sent = Undefined, sentAt = Undefined \<rparr>"

definition itemC :: article where
  "itemC = \<lparr> link = Str ''c'', title = Str ''C'', description = Str ''third'', thumbnail = Null,
             guid = Str '''', publishedAt = Str ''2024-01-02T00:00:00.000Z'',
             publishedAtMs = Num (Fin 1704153600000), sent = Undefined, sentAt = Undefined \<rparr>"

text \<open>Article \<open>a\<close> as a bucket holds it once delivered, under an older title.\<close>

definition trackedA :: article where
  "trackedA = \<lparr> link = Str ''a'', title = Str ''old title'', description = Str ''first'',
                thumbnail = Null, guid = Str ''ga'', publishedAt = Str ''2024-01-01T00:00:00.000Z'',
                publishedAtMs = Num (Fin 1704067200000), sent = Bool True,
                sentAt = Str ''2024-01-01T01:00:00.000Z'' \<rparr>"

text \<open>
  A ledger that remembers article \<open>a\<close>, a clock, a sink that accepts every call, a sink
  that accepts the first call only, and a loop state before the first call.
\<close>

definition exampleLedger :: sentMap where
  "exampleLedger =
     [(hashIdentifier ''ga'',
       \<lparr> e_sentAt = Str ''2023-12-31T00:00:00.000Z'', e_identity = Str ''ga'' \<rparr>)]"

definition exampleClock :: "nat \<Rightarrow> string" where
  "exampleClock k = ''2024-01-03T00:00:00.000Z''"

definition acceptAll :: "nat \<Rightarrow> article \<Rightarrow> exn + bool" where
  "acceptAll k a = Inr True"

definition firstOnly :: "nat \<Rightarrow> article \<Rightarrow> exn + bool" where
  "firstOnly k a = Inr (k = 0)"

definition exampleLoopState :: loop_state where
  "exampleLoopState =
     \<lparr> ls_articles = [newArticle itemA, newArticle itemB], ls_sentMap = [],
       ls_sentMapDirty = False, ls_successCount = 0, ls_sendSuccess = False, ls_calls = [] \<rparr>"

definition staleLedger :: sentMap where
  "staleLedger =
     [(hashIdentifier ''ga'',
       \<lparr> e_sentAt = Str ''2024-01-01T00:00:00.000Z'', e_identity = Str ''ga'' \<rparr>)]"

definition brokenLedger :: sentMap where
  "brokenLedger =
     [(hashIdentifier ''ga'', \<lparr> e_sentAt = Str ''yesterday'', e_identity = Str ''ga'' \<rparr>)]"

definition crowdedLedger :: sentMap where
  "crowdedLedger =
     [(''00000001'', \<lparr> e_sentAt = Str ''2024-01-02T00:00:00.000Z'', e_identity = Str ''x'' \<rparr>),
      (''00000002'', \<lparr> e_sentAt = Str ''yesterday'', e_identity = Str ''y'' \<rparr>),
      (''00000003'', \<lparr> e_sentAt = Str ''2024-01-01T00:00:00.000Z'', e_identity = Null \<rparr>)]"

section \<open>Properties\<close>

subsection \<open>Identity\<close>

lemma dropWhile_Nil_iff: "dropWhile P xs = [] \<longleftrightarrow> list_all P xs"
  by (induction xs) auto

lemma list_all_dropWhile: "list_all P (dropWhile P xs) = list_all P xs"
  by (induction xs) auto

lemma trim_empty_iff: "trim s = [] \<longleftrightarrow> list_all isWhite s"
  using list_all_dropWhile[of isWhite s]
  by (simp add: trim_def dropWhile_Nil_iff list_all_iff)

lemma trimmedText_None_iff: "trimmedText v = None \<longleftrightarrow> blankOrAbsent v"
  by (cases v) (auto simp: trim_empty_iff)

lemma getArticleIdentity_None_iff:
  "getArticleIdentity a = None \<longleftrightarrow> blankOrAbsent (guid a) \<and> blankOrAbsent (link a)"
  by (auto simp: getArticleIdentity_def trimmedText_None_iff[symmetric] split: option.splits)

lemma getArticleIdentity_sent_upd [simp]:
  "getArticleIdentity (a\<lparr>sent := x\<rparr>) = getArticleIdentity a"
  "getArticleIdentity (a\<lparr>sentAt := y\<rparr>) = getArticleIdentity a"
  by (simp_all add: getArticleIdentity_def split: option.splits)

subsection \<open>The reconciliation loop as a map\<close>

lemma markLoop_eq:
  "markLoop sm as m = (map (markOne sm) as, m \<or> (\<exists>a\<in>set as. markArticle sm a \<noteq> None))"
  by (induction as arbitrary: m) (auto simp: markOne_def split: option.splits)

lemma markPreviouslySentArticles_eq:
  "markPreviouslySentArticles as sm =
     (map (markOne sm) as, \<exists>a\<in>set as. markArticle sm a \<noteq> None)"
  by (simp add: markPreviouslySentArticles_def markLoop_eq)

subsection \<open>C10: articles without identity never enter the ledger\<close>

text \<open>
  C10. For every article whose \<open>guid\<close> and \<open>link\<close> are both absent, not strings, or
  blank after trimming: \<open>getArticleIdentity\<close> returns null; \<open>setSentEntry\<close> returns
  false and leaves the ledger as it is; \<open>markPreviouslySentArticles\<close> leaves the
  article as it is, wherever it stands in the list; and a loop step that delivers it
  successfully marks it sent in memory but changes neither the ledger nor its dirty
  flag, so nothing about it is written to the ledger.
\<close>

theorem identityless_never_recorded:
  assumes "blankOrAbsent (guid a)" and "blankOrAbsent (link a)"
  shows "getArticleIdentity a = None
       \<and> setSentEntry now sentMap a = (sentMap, False)
       \<and> fst (markPreviouslySentArticles (as @ a # bs) sentMap) ! length as = a
       \<and> (i < length (ls_articles st) \<and> ls_articles st ! i = a
            \<and> sink (length (ls_calls st)) a = Inr True \<longrightarrow>
          (\<exists>st'. deliverStep sink clock i st = Inr st'
               \<and> sent (ls_articles st' ! i) = Bool True
               \<and> ls_sentMap st' = ls_sentMap st
               \<and> ls_sentMapDirty st' = ls_sentMapDirty st))"
proof -
  have id: "getArticleIdentity a = None"
    using assms by (simp add: getArticleIdentity_None_iff)
  have set: "setSentEntry now sentMap a = (sentMap, False)"
    by (simp add: setSentEntry_def id)
  have mark: "markArticle sentMap a = None"
    by (simp add: markArticle_def id)
  have loop: "fst (markPreviouslySentArticles (as @ a # bs) sentMap) ! length as = a"
    by (simp add: markPreviouslySentArticles_eq nth_append markOne_def mark)
  have step: "\<exists>st'. deliverStep sink clock i st = Inr st'
                  \<and> sent (ls_articles st' ! i) = Bool True
                  \<and> ls_sentMap st' = ls_sentMap st
                  \<and> ls_sentMapDirty st' = ls_sentMapDirty st"
    if "i < length (ls_articles st)" "ls_articles st ! i = a"
       "sink (length (ls_calls st)) a = Inr True"
    using that by (simp add: deliverStep_def Let_def setSentEntry_def id)
  from id set loop step show ?thesis by blast
qed

theorem identityless_never_recorded_witness:
  "blankOrAbsent (guid blankArticle) \<and> blankOrAbsent (link blankArticle)
   \<and> getArticleIdentity blankArticle = None
   \<and> setSentEntry ''2024-01-01T00:00:00.000Z'' [] blankArticle = ([], False)
   \<and> fst (markPreviouslySentArticles [blankArticle] []) ! 0 = blankArticle
   \<and> (\<exists>st'. deliverStep (\<lambda>k a. Inr True) (\<lambda>k. ''2024-01-01T00:00:00.000Z'') 0
              \<lparr> ls_articles = [blankArticle], ls_sentMap = [], ls_sentMapDirty = False,
                ls_successCount = 0, ls_sendSuccess = False, ls_calls = [] \<rparr> = Inr st'
            \<and> sent (ls_articles st' ! 0) = Bool True
            \<and> ls_sentMap st' = [] \<and> ls_sentMapDirty st' = False)"
proof -
  have g: "blankOrAbsent (guid blankArticle)" by (simp add: blankArticle_def)
  have l: "blankOrAbsent (link blankArticle)" by (simp add: blankArticle_def isWhite_def)
  show ?thesis
    using g l
      identityless_never_recorded[OF g l,
        where now = "''2024-01-01T00:00:00.000Z''" and sentMap = "[]" and as = "[]" and bs = "[]"
          and i = 0 and sink = "\<lambda>k a. Inr True" and clock = "\<lambda>k. ''2024-01-01T00:00:00.000Z''"
          and st = "\<lparr> ls_articles = [blankArticle], ls_sentMap = [], ls_sentMapDirty = False,
                ls_successCount = 0, ls_sendSuccess = False, ls_calls = [] \<rparr>"]
    by simp
qed

subsection \<open>Maps\<close>

lemma Map_get_set: "Map_get (Map_set m k v) k' = (if k' = k then Some v else Map_get m k')"
  by (induction m) (auto simp: Map_get_def)

lemma Map_set_keys: "fst ` set (Map_set m k v) = insert k (fst ` set m)"
  by (induction m) auto

lemma Map_set_distinct: "distinct (map fst m) \<Longrightarrow> distinct (map fst (Map_set m k v))"
proof (induction m)
  case Nil
  show ?case by simp
next
  case (Cons p ps)
  have "fst p \<notin> fst ` set (Map_set ps k v)" if "fst p \<noteq> k"
    using that Cons.prems by (simp add: Map_set_keys)
  with Cons show ?case by auto
qed

lemma Map_set_subset: "set (Map_set m k v) \<subseteq> insert (k, v) (set m)"
  by (induction m) auto

lemma Map_get_distinct: "distinct (map fst m) \<Longrightarrow> Map_get m k = Some v \<longleftrightarrow> (k, v) \<in> set m"
  by (simp add: Map_get_def)

lemma Map_get_None: "Map_get m k = None \<longleftrightarrow> k \<notin> fst ` set m"
  by (simp add: Map_get_def map_of_eq_None_iff)

subsection \<open>The loop over the parsed items\<close>

lemma updateExisting_noop: "\<not> snd (updateExisting ex c) \<Longrightarrow> fst (updateExisting ex c) = ex"
  by (simp add: updateExisting_def Let_def)

lemma updateExisting_link [simp]: "link (fst (updateExisting ex c)) = link ex"
  by (simp add: updateExisting_def Let_def)

lemma updateExisting_sent [simp]:
  "sent (fst (updateExisting ex c)) = sent ex" "sentAt (fst (updateExisting ex c)) = sentAt ex"
  by (simp_all add: updateExisting_def Let_def)

lemma updateExisting_fields:
  "title (fst (updateExisting ex c)) = (if fieldDiffers (title c) (title ex) then title c else title ex)"
  "description (fst (updateExisting ex c)) = (if fieldDiffers (description c) (description ex) then description c else description ex)"
  "thumbnail (fst (updateExisting ex c)) = (if fieldDiffers (thumbnail c) (thumbnail ex) then thumbnail c else thumbnail ex)"
  "guid (fst (updateExisting ex c)) = (if fieldDiffers (guid c) (guid ex) then guid c else guid ex)"
  "publishedAt (fst (updateExisting ex c)) = (if fieldDiffers (publishedAt c) (publishedAt ex) then publishedAt c else publishedAt ex)"
  "publishedAtMs (fst (updateExisting ex c)) = (if fieldDiffers (publishedAt c) (publishedAt ex) then publishedAtMs c else publishedAtMs ex)"
  by (simp_all add: updateExisting_def Let_def)

lemma updateExisting_updated:
  "snd (updateExisting ex c) \<longleftrightarrow>
     fieldDiffers (title c) (title ex) \<or> fieldDiffers (description c) (description ex)
   \<or> fieldDiffers (thumbnail c) (thumbnail ex) \<or> fieldDiffers (guid c) (guid ex)
   \<or> fieldDiffers (publishedAt c) (publishedAt ex)"
  by (simp add: updateExisting_def Let_def)

lemma itemLoop_step:
  "truthy (link c) \<Longrightarrow>
   itemLoop (c # cs) (m, f) =
     itemLoop cs (if changes (Map_get m (link c)) c then Map_set m (link c) (touch (Map_get m (link c)) c) else m,
                  f \<or> changes (Map_get m (link c)) c)"
  by (auto simp: touch_def changes_def split: option.splits prod.splits)

lemma itemLoop_skip: "\<not> truthy (link c) \<Longrightarrow> itemLoop (c # cs) (m, f) = itemLoop cs (m, f)"
  by simp

lemma step_lookup:
  "Map_get (if changes (Map_get m k) c then Map_set m k (touch (Map_get m k) c) else m) k' =
     (if k' = k then (if changes (Map_get m k) c then Some (touch (Map_get m k) c) else Map_get m k) else Map_get m k')"
  by (simp add: Map_get_set)

lemma touch_unchanged: "\<not> changes (Some ex) c \<Longrightarrow> touch (Some ex) c = ex"
  by (simp add: touch_def changes_def updateExisting_noop)

lemma step_lookup_same:
  "Map_get (if changes (Map_get m k) c then Map_set m k (touch (Map_get m k) c) else m) k =
     Some (touch (Map_get m k) c)"
  by (cases "Map_get m k") (auto simp: Map_get_set changes_def touch_def updateExisting_noop)

lemma distinct_links_Cons:
  assumes "distinct (filter truthy (map link (d # cs)))"
  shows "distinct (filter truthy (map link cs))"
    and "truthy (link d) \<Longrightarrow> c \<in> set cs \<Longrightarrow> link c \<noteq> link d"
proof -
  show "distinct (filter truthy (map link cs))"
    using assms by (simp split: if_splits)
  assume d: "truthy (link d)" and c: "c \<in> set cs"
  from assms d have "link d \<notin> set (filter truthy (map link cs))" by simp
  show "link c \<noteq> link d"
  proof
    assume eq: "link c = link d"
    from c have "link c \<in> set (map link cs)" by simp
    with eq d have "link d \<in> set (filter truthy (map link cs))" by simp
    with \<open>link d \<notin> set (filter truthy (map link cs))\<close> show False by contradiction
  qed
qed

lemma itemLoop_other:
  "k \<notin> link ` {c \<in> set cs. truthy (link c)} \<Longrightarrow> Map_get (fst (itemLoop cs (m, f))) k = Map_get m k"
proof (induction cs arbitrary: m f)
  case Nil
  show ?case by simp
next
  case (Cons c cs)
  from Cons.prems have rest: "k \<notin> link ` {c \<in> set cs. truthy (link c)}" by auto
  show ?case
  proof (cases "truthy (link c)")
    case True
    with Cons.prems have ne: "k \<noteq> link c" by auto
    show ?thesis
      unfolding itemLoop_step[OF True] Cons.IH[OF rest] using ne by (simp add: Map_get_set)
  next
    case False
    then show ?thesis using Cons.IH[OF rest] by simp
  qed
qed

lemma itemLoop_lookup:
  assumes "distinct (filter truthy (map link cs))" and "c \<in> set cs" and "truthy (link c)"
  shows "Map_get (fst (itemLoop cs (m, f))) (link c) = Some (touch (Map_get m (link c)) c)"
  using assms
proof (induction cs arbitrary: m f)
  case Nil
  then show ?case by simp
next
  case (Cons d cs)
  note dist = distinct_links_Cons(1)[OF Cons.prems(1)]
  show ?case
  proof (cases "truthy (link d)")
    case False
    with Cons.prems have "c \<in> set cs" by auto
    from Cons.IH[OF dist this Cons.prems(3)] False show ?thesis by simp
  next
    case True
    note d = this
    show ?thesis
    proof (cases "c = d")
      case True
      have "link d \<notin> link ` {c \<in> set cs. truthy (link c)}"
      proof
        assume "link d \<in> link ` {c \<in> set cs. truthy (link c)}"
        then obtain x where "x \<in> set cs" "link d = link x" by auto
        with distinct_links_Cons(2)[OF Cons.prems(1) d, of x] show False by simp
      qed
      from itemLoop_other[OF this] show ?thesis
        unfolding True itemLoop_step[OF d] by (simp only: step_lookup_same)
    next
      case False
      then have in_cs: "c \<in> set cs" using Cons.prems by simp
      have ne: "link c \<noteq> link d"
        using distinct_links_Cons(2)[OF Cons.prems(1) d in_cs] .
      show ?thesis
        unfolding itemLoop_step[OF d] Cons.IH[OF dist in_cs Cons.prems(3)]
        using ne by (simp add: Map_get_set)
    qed
  qed
qed

lemma itemLoop_changed:
  assumes "distinct (filter truthy (map link cs))"
  shows "snd (itemLoop cs (m, f)) \<longleftrightarrow> f \<or> (\<exists>c\<in>set cs. truthy (link c) \<and> changes (Map_get m (link c)) c)"
  using assms
proof (induction cs arbitrary: m f)
  case Nil
  show ?case by simp
next
  case (Cons d cs)
  note dist = distinct_links_Cons(1)[OF Cons.prems(1)]
  show ?case
  proof (cases "truthy (link d)")
    case False
    with Cons.IH[OF dist] show ?thesis by auto
  next
    case True
    note d = this
    have other: "Map_get (if changes (Map_get m (link d)) d
                   then Map_set m (link d) (touch (Map_get m (link d)) d) else m) (link c)
                 = Map_get m (link c)"
      if "c \<in> set cs" for c
      using distinct_links_Cons(2)[OF Cons.prems(1) d that] by (simp add: Map_get_set)
    have "(\<exists>c\<in>set cs. truthy (link c) \<and> changes (Map_get (if changes (Map_get m (link d)) d
                   then Map_set m (link d) (touch (Map_get m (link d)) d) else m) (link c)) c)
          = (\<exists>c\<in>set cs. truthy (link c) \<and> changes (Map_get m (link c)) c)"
      by (rule bex_cong[OF refl]) (simp only: other)
    then show ?thesis
      unfolding itemLoop_step[OF d] Cons.IH[OF dist]
      using d by (simp only: set_simps bex_simps) blast
  qed
qed

lemma Map_set_new: "k \<notin> fst ` set m \<Longrightarrow> Map_set m k v = m @ [(k, v)]"
  by (induction m) auto

subsection \<open>The loop over the existing articles\<close>

lemma seedArticle_fields:
  assumes "seedArticle dp toIso a = Inr s"
  shows "link s = link a" "title s = title a" "description s = description a"
    "thumbnail s = thumbnail a"
    "sent s = Bool (truthy (sent a))" "sentAt s = js_or (sentAt a) Null"
    "guid s = (if is_string (guid a) then guid a else Null)"
    "publishedAtMs s = (if Number_isFinite (publishedAtMs a) then publishedAtMs a
                        else if truthy (publishedAt a) then Num (dp (publishedAt a)) else Null)"
    "truthy (publishedAt a) \<Longrightarrow> publishedAt s = publishedAt a"
  using assms by (auto simp: seedArticle_def split: if_splits sum.splits)

lemma mapInv_Nil [simp]: "mapInv []"
  by (simp add: mapInv_def)

lemma mapInv_Map_set: "mapInv m \<Longrightarrow> link v = k \<Longrightarrow> truthy k \<Longrightarrow> mapInv (Map_set m k v)"
  unfolding mapInv_def using Map_set_subset[of m k v] by (auto simp: Map_set_distinct)

lemma seedLoop_inv: "seedLoop dp toIso ex m = Inr m' \<Longrightarrow> mapInv m \<Longrightarrow> mapInv m'"
proof (induction ex arbitrary: m)
  case Nil
  then show ?case by simp
next
  case (Cons a ex)
  show ?case
  proof (cases "truthy (link a)")
    case False
    with Cons show ?thesis by simp
  next
    case True
    with Cons.prems obtain s where s: "seedArticle dp toIso a = Inr s"
      and rest: "seedLoop dp toIso ex (Map_set m (link a) s) = Inr m'"
      by (auto split: sum.splits)
    from Cons.IH[OF rest] mapInv_Map_set[OF Cons.prems(2) seedArticle_fields(1)[OF s] True]
    show ?thesis .
  qed
qed

lemma seedLoop_other:
  "seedLoop dp toIso ex m = Inr m' \<Longrightarrow> k \<notin> link ` {a \<in> set ex. truthy (link a)} \<Longrightarrow>
   Map_get m' k = Map_get m k"
proof (induction ex arbitrary: m)
  case Nil
  then show ?case by simp
next
  case (Cons a ex)
  from Cons.prems(2) have rest_k: "k \<notin> link ` {a \<in> set ex. truthy (link a)}" by auto
  show ?case
  proof (cases "truthy (link a)")
    case False
    with Cons.prems Cons.IH[OF _ rest_k] show ?thesis by simp
  next
    case True
    with Cons.prems obtain s where s: "seedArticle dp toIso a = Inr s"
      and rest: "seedLoop dp toIso ex (Map_set m (link a) s) = Inr m'"
      by (auto split: sum.splits)
    from Cons.prems(2) True have "k \<noteq> link a" by auto
    with Cons.IH[OF rest rest_k] show ?thesis by (simp add: Map_get_set)
  qed
qed

lemma seedLoop_lookup:
  assumes "seedLoop dp toIso ex m = Inr m'" and "distinct (filter truthy (map link ex))"
    and "a \<in> set ex" and "truthy (link a)"
  shows "\<exists>s. seedArticle dp toIso a = Inr s \<and> Map_get m' (link a) = Some s"
  using assms
proof (induction ex arbitrary: m)
  case Nil
  then show ?case by simp
next
  case (Cons b ex)
  note dist = distinct_links_Cons(1)[OF Cons.prems(2)]
  show ?case
  proof (cases "truthy (link b)")
    case False
    with Cons.prems have "a \<in> set ex" "seedLoop dp toIso ex m = Inr m'" by auto
    from Cons.IH[OF this(2) dist this(1) Cons.prems(4)] show ?thesis .
  next
    case True
    with Cons.prems obtain s where s: "seedArticle dp toIso b = Inr s"
      and rest: "seedLoop dp toIso ex (Map_set m (link b) s) = Inr m'"
      by (auto split: sum.splits)
    show ?thesis
    proof (cases "a = b")
      case True
      have "link b \<notin> link ` {a \<in> set ex. truthy (link a)}"
      proof
        assume "link b \<in> link ` {a \<in> set ex. truthy (link a)}"
        then obtain x where "x \<in> set ex" "link b = link x" by auto
        with distinct_links_Cons(2)[OF Cons.prems(2) \<open>truthy (link b)\<close>, of x] show False by simp
      qed
      from seedLoop_other[OF rest this] s show ?thesis
        unfolding True by (simp add: Map_get_set)
    next
      case False
      with Cons.prems have "a \<in> set ex" by simp
      from Cons.IH[OF rest dist this Cons.prems(4)] show ?thesis .
    qed
  qed
qed

lemma seedLoop_keys:
  "seedLoop dp toIso ex m = Inr m' \<Longrightarrow>
   fst ` set m' = fst ` set m \<union> link ` {a \<in> set ex. truthy (link a)}"
proof (induction ex arbitrary: m)
  case Nil
  then show ?case by simp
next
  case (Cons a ex)
  show ?case
  proof (cases "truthy (link a)")
    case False
    with Cons.prems Cons.IH[of m] show ?thesis by auto
  next
    case True
    with Cons.prems obtain s where s: "seedArticle dp toIso a = Inr s"
      and rest: "seedLoop dp toIso ex (Map_set m (link a) s) = Inr m'"
      by (auto split: sum.splits)
    from Cons.IH[OF rest] True show ?thesis by (auto simp: Map_set_keys)
  qed
qed

lemma seedLoop_fixed:
  assumes "\<And>a. a \<in> set as \<Longrightarrow> truthy (link a) \<and> seedArticle dp toIso a = Inr a"
    and "distinct (map link as)" and "link ` set as \<inter> fst ` set m = {}"
  shows "seedLoop dp toIso as m = Inr (m @ map (\<lambda>a. (link a, a)) as)"
  using assms
proof (induction as arbitrary: m)
  case Nil
  show ?case by simp
next
  case (Cons a as)
  have a: "truthy (link a)" "seedArticle dp toIso a = Inr a" using Cons.prems(1)[of a] by simp_all
  have new: "link a \<notin> fst ` set m" using Cons.prems(3) by auto
  have "link ` set as \<inter> fst ` set (m @ [(link a, a)]) = {}"
    using Cons.prems(2,3) by auto
  from Cons.IH[OF _ _ this] Cons.prems(1,2) a show ?case
    by (simp add: Map_set_new[OF new])
qed

subsection \<open>Invariants of the item loop\<close>

lemma touch_link: "link c = k \<Longrightarrow> (\<And>ex. eo = Some ex \<Longrightarrow> link ex = k) \<Longrightarrow> link (touch eo c) = k"
  by (cases eo) (simp_all add: touch_def newArticle_def)

lemma mapInv_lookup: "mapInv m \<Longrightarrow> Map_get m k = Some v \<Longrightarrow> link v = k"
  by (auto simp: mapInv_def Map_get_def dest: map_of_SomeD)

lemma itemLoop_inv: "mapInv m \<Longrightarrow> mapInv (fst (itemLoop cs (m, f)))"
proof (induction cs arbitrary: m f)
  case Nil
  then show ?case by simp
next
  case (Cons c cs)
  show ?case
  proof (cases "truthy (link c)")
    case False
    with Cons show ?thesis by simp
  next
    case True
    have "link (touch (Map_get m (link c)) c) = link c"
      by (rule touch_link) (simp_all add: mapInv_lookup[OF Cons.prems])
    from mapInv_Map_set[OF Cons.prems this True] Cons.prems Cons.IH show ?thesis
      unfolding itemLoop_step[OF True] by (cases "changes (Map_get m (link c)) c") simp_all
  qed
qed

lemma itemLoop_keys:
  "fst ` set (fst (itemLoop cs (m, f))) = fst ` set m \<union> link ` {c \<in> set cs. truthy (link c)}"
proof (induction cs arbitrary: m f)
  case Nil
  show ?case by simp
next
  case (Cons c cs)
  show ?case
  proof (cases "truthy (link c)")
    case False
    with Cons show ?thesis by auto
  next
    case True
    have "changes (Map_get m (link c)) c" if "link c \<notin> fst ` set m"
      using that by (simp add: changes_def Map_get_None[symmetric])
    then show ?thesis
      unfolding itemLoop_step[OF True] Cons.IH using True
      by (auto simp: Map_set_keys)
  qed
qed

lemma itemLoop_noop:
  assumes "\<And>c. c \<in> set cs \<Longrightarrow> truthy (link c) \<Longrightarrow> \<not> changes (Map_get m (link c)) c"
  shows "itemLoop cs (m, f) = (m, f)"
  using assms
proof (induction cs)
  case Nil
  show ?case by simp
next
  case (Cons c cs)
  show ?case
  proof (cases "truthy (link c)")
    case False
    with Cons show ?thesis by simp
  next
    case True
    with Cons.prems[of c] have "\<not> changes (Map_get m (link c)) c" by simp
    with Cons show ?thesis unfolding itemLoop_step[OF True] by simp
  qed
qed

subsection \<open>Sorting\<close>

lemma sortInsert_mset: "sortInsert cmp x ys = Inr r \<Longrightarrow> mset r = add_mset x (mset ys)"
  by (induction ys arbitrary: r) (auto split: sum.splits if_splits)

lemma Array_sort_mset: "Array_sort cmp xs = Inr ys \<Longrightarrow> mset ys = mset xs"
  by (induction xs arbitrary: ys) (auto split: sum.splits dest: sortInsert_mset)

lemma sortInsert_sorted:
  assumes cmpR: "\<And>y. y \<in> set ys \<Longrightarrow> \<exists>v. cmp x y = Inr v \<and> (if num_pos v then R y x else R x y)"
    and trans: "\<And>y z. y \<in> set ys \<Longrightarrow> z \<in> set ys \<Longrightarrow> R x y \<Longrightarrow> R y z \<Longrightarrow> R x z"
    and sorted: "sorted_wrt R ys"
  shows "\<exists>r. sortInsert cmp x ys = Inr r \<and> sorted_wrt R r"
  using assms
proof (induction ys)
  case Nil
  show ?case by simp
next
  case (Cons y ys)
  from Cons.prems(1)[of y] obtain v where v: "cmp x y = Inr v" "if num_pos v then R y x else R x y"
    by auto
  show ?case
  proof (cases "num_pos v")
    case False
    with v have xy: "R x y" by simp
    have "R x z" if "z \<in> set ys" for z
      using Cons.prems(2)[of y z] that xy Cons.prems(3) by auto
    with xy v False Cons.prems(3) show ?thesis by auto
  next
    case True
    with v have yx: "R y x" by simp
    from Cons.prems(3) have s: "sorted_wrt R ys" and yall: "\<forall>z\<in>set ys. R y z" by auto
    from Cons.IH[OF _ _ s] Cons.prems(1,2)
    obtain r where r: "sortInsert cmp x ys = Inr r" "sorted_wrt R r" by auto
    from sortInsert_mset[OF r(1)] have "set r = insert x (set ys)"
      by (metis set_mset_add_mset_insert set_mset_mset)
    with yx yall r v True show ?thesis by auto
  qed
qed

lemma Array_sort_sorted:
  assumes cmpR: "\<And>a b. a \<in> set xs \<Longrightarrow> b \<in> set xs \<Longrightarrow> a \<noteq> b \<Longrightarrow>
                   \<exists>v. cmp a b = Inr v \<and> (if num_pos v then R b a else R a b)"
    and trans: "\<And>a b c. a \<in> set xs \<Longrightarrow> b \<in> set xs \<Longrightarrow> c \<in> set xs \<Longrightarrow> R a b \<Longrightarrow> R b c \<Longrightarrow> R a c"
    and dist: "distinct xs"
  shows "\<exists>ys. Array_sort cmp xs = Inr ys \<and> sorted_wrt R ys"
  using assms
proof (induction xs)
  case Nil
  show ?case by simp
next
  case (Cons x xs)
  have "\<exists>ys. Array_sort cmp xs = Inr ys \<and> sorted_wrt R ys"
  proof (rule Cons.IH)
    fix a b assume "a \<in> set xs" "b \<in> set xs" "a \<noteq> b"
    then show "\<exists>v. cmp a b = Inr v \<and> (if num_pos v then R b a else R a b)"
      using Cons.prems(1)[of a b] by simp
  next
    fix a b c assume "a \<in> set xs" "b \<in> set xs" "c \<in> set xs" "R a b" "R b c"
    then show "R a c" using Cons.prems(2)[of a b c] by simp
  next
    show "distinct xs" using Cons.prems(3) by simp
  qed
  then obtain ys where ys: "Array_sort cmp xs = Inr ys" "sorted_wrt R ys" by auto
  from Array_sort_mset[OF ys(1)] have set: "set ys = set xs"
    by (metis set_mset_mset)
  have "\<exists>r. sortInsert cmp x ys = Inr r \<and> sorted_wrt R r"
  proof (rule sortInsert_sorted[OF _ _ ys(2)])
    fix y assume "y \<in> set ys"
    with set Cons.prems(3) have "y \<in> set xs" "x \<noteq> y" by auto
    then show "\<exists>v. cmp x y = Inr v \<and> (if num_pos v then R y x else R x y)"
      using Cons.prems(1)[of x y] by simp
  next
    fix y z assume "y \<in> set ys" "z \<in> set ys" "R x y" "R y z"
    then show "R x z" using Cons.prems(2)[of x y z] set by simp
  qed
  with ys show ?case by auto
qed

lemma Array_sort_of_sorted:
  assumes "sorted_wrt R xs"
    and "\<And>a b. a \<in> set xs \<Longrightarrow> b \<in> set xs \<Longrightarrow> R a b \<Longrightarrow> \<exists>v. cmp a b = Inr v \<and> \<not> num_pos v"
  shows "Array_sort cmp xs = Inr xs"
  using assms
proof (induction xs)
  case Nil
  show ?case by simp
next
  case (Cons x xs)
  have IH: "Array_sort cmp xs = Inr xs"
    using Cons.prems by (intro Cons.IH) auto
  show ?case
  proof (cases xs)
    case Nil
    with IH show ?thesis by simp
  next
    case (Cons y ys)
    with Cons.prems(1) have "R x y" by simp
    with Cons.prems(2)[of x y] Cons obtain v where "cmp x y = Inr v" "\<not> num_pos v" by auto
    with IH Cons show ?thesis by simp
  qed
qed

lemma sorted_wrt_unique:
  assumes "sorted_wrt R xs" and "sorted_wrt R ys" and "set xs = set ys"
    and asym: "\<And>a b. a \<in> set xs \<Longrightarrow> b \<in> set xs \<Longrightarrow> R a b \<Longrightarrow> \<not> R b a"
  shows "xs = ys"
  using assms
proof (induction xs arbitrary: ys)
  case Nil
  then show ?case by simp
next
  case (Cons x xs)
  from Cons.prems(3) obtain y ys' where ys: "ys = y # ys'" by (cases ys) auto
  have irrefl: "\<not> R a a" if "a \<in> set (x # xs)" for a
    using Cons.prems(4)[of a a] that by blast
  have xy: "x = y"
  proof (rule ccontr)
    assume ne: "x \<noteq> y"
    with Cons.prems(3) ys have "x \<in> set ys'" "y \<in> set xs" by auto
    with Cons.prems(1,2) ys have "R y x" "R x y" by auto
    with Cons.prems(4)[of x y] \<open>y \<in> set xs\<close> show False by simp
  qed
  have x_notin: "x \<notin> set xs" using Cons.prems(1) irrefl[of x] by auto
  have y_notin: "y \<notin> set ys'" using Cons.prems(2,3) ys irrefl[of y] by auto
  have "set xs = set ys'"
    using Cons.prems(3) ys xy x_notin y_notin by auto
  from Cons.IH[OF _ _ this] Cons.prems(1,2,4) ys have "xs = ys'" by auto
  with xy ys show ?case by simp
qed

lemma timeKey_finiteTime: "timeKey a = (case finiteTime a of Some i \<Rightarrow> Fin i | None \<Rightarrow> PInf)"
proof (cases "publishedAtMs a")
  case (Num n)
  then show ?thesis by (cases n) (simp_all add: timeKey_def finiteTime_def)
qed (simp_all add: timeKey_def finiteTime_def)

lemma compare_times:
  assumes "finiteTime a \<noteq> finiteTime b"
  shows "\<exists>v. compareArticles lc a b = Inr v
           \<and> (if num_pos v then timeBefore (finiteTime b) (finiteTime a)
               else timeBefore (finiteTime a) (finiteTime b))"
  using assms
  by (cases "finiteTime a"; cases "finiteTime b")
     (simp_all add: compareArticles_def Let_def timeKey_finiteTime)

lemma compare_links:
  assumes "finiteTime a = finiteTime b" and "link a = Str x"
  shows "compareArticles lc a b = Inr (Fin (lc x (link b)))"
  using assms by (simp add: compareArticles_def Let_def timeKey_finiteTime)

lemma compare_decides:
  assumes col: "collation_on S lc" and a: "link a = Str x" "x \<in> S" and b: "link b = Str y" "y \<in> S"
    and ne: "x \<noteq> y"
  shows "\<exists>v. compareArticles lc a b = Inr v \<and> (if num_pos v then precedes lc b a else precedes lc a b)"
proof (cases "finiteTime a = finiteTime b")
  case True
  from col a b ne have "lc x (Str y) \<noteq> 0" and "0 < lc x (Str y) \<longleftrightarrow> lc y (Str x) < 0"
    unfolding collation_on_def by blast+
  then have "if 0 < lc x (Str y) then lc y (Str x) < 0 else lc x (Str y) < 0"
    by (cases "0 < lc x (Str y)") (simp, arith)
  with True a b show ?thesis
    by (simp add: compare_links[OF True a(1)] precedes_def)
next
  case False
  from compare_times[OF False, of lc] show ?thesis
    by (auto simp: precedes_def)
qed

lemma precedes_compare:
  assumes "precedes lc a b"
  shows "\<exists>v. compareArticles lc a b = Inr v \<and> \<not> num_pos v"
proof (cases "finiteTime a = finiteTime b")
  case True
  have irr: "\<not> timeBefore (finiteTime b) (finiteTime b)"
    by (cases "finiteTime b") simp_all
  with assms True have lb: "linkBefore lc (link a) (link b)" by (simp add: precedes_def)
  then obtain x y where xy: "link a = Str x" "link b = Str y"
    by (cases "link a"; cases "link b") simp_all
  with lb show ?thesis by (simp add: compare_links[OF True xy(1)])
next
  case False
  from compare_times[OF False, of lc]
  obtain v where v: "compareArticles lc a b = Inr v"
    "if num_pos v then timeBefore (finiteTime b) (finiteTime a) else timeBefore (finiteTime a) (finiteTime b)"
    by blast
  have "\<not> (timeBefore (finiteTime b) (finiteTime a) \<and> timeBefore (finiteTime a) (finiteTime b))"
    by (cases "finiteTime a"; cases "finiteTime b") simp_all
  with assms False v show ?thesis by (auto simp: precedes_def)
qed

lemma timeBefore_trans: "timeBefore s t \<Longrightarrow> timeBefore t u \<Longrightarrow> timeBefore s u"
  by (cases s; cases t; cases u) simp_all

lemma timeBefore_irrefl: "\<not> timeBefore t t"
  by (cases t) simp_all

lemma timeBefore_asym: "timeBefore s t \<Longrightarrow> \<not> timeBefore t s"
  by (cases s; cases t) simp_all

lemma precedes_trans:
  assumes col: "collation_on S lc"
    and a: "link a = Str x" "x \<in> S" and b: "link b = Str y" "y \<in> S" and c: "link c = Str z" "z \<in> S"
    and ab: "precedes lc a b" and bc: "precedes lc b c"
  shows "precedes lc a c"
proof -
  from col a b c have tr: "lc x (Str y) < 0 \<Longrightarrow> lc y (Str z) < 0 \<Longrightarrow> lc x (Str z) < 0"
    unfolding collation_on_def by blast
  consider (bb) "timeBefore (finiteTime a) (finiteTime b)" "timeBefore (finiteTime b) (finiteTime c)"
    | (be) "timeBefore (finiteTime a) (finiteTime b)" "finiteTime b = finiteTime c"
    | (eb) "finiteTime a = finiteTime b" "timeBefore (finiteTime b) (finiteTime c)"
    | (ee) "finiteTime a = finiteTime b" "finiteTime b = finiteTime c"
           "lc x (Str y) < 0" "lc y (Str z) < 0"
    using ab bc a b c unfolding precedes_def by auto
  then show ?thesis
  proof cases
    case bb
    then show ?thesis using timeBefore_trans unfolding precedes_def by blast
  next
    case be
    then show ?thesis unfolding precedes_def by simp
  next
    case eb
    then show ?thesis unfolding precedes_def by simp
  next
    case ee
    then show ?thesis using tr a c unfolding precedes_def by simp
  qed
qed

lemma precedes_asym:
  assumes col: "collation_on S lc"
    and a: "link a = Str x" "x \<in> S" and b: "link b = Str y" "y \<in> S"
    and ab: "precedes lc a b"
  shows "\<not> precedes lc b a"
proof
  assume ba: "precedes lc b a"
  show False
  proof (cases "finiteTime a = finiteTime b")
    case True
    with ab ba a b have "lc x (Str y) < 0" "lc y (Str x) < 0"
      by (simp_all add: precedes_def timeBefore_irrefl)
    moreover from col a b have "lc x (Str y) < 0 \<longleftrightarrow> 0 < lc y (Str x)"
      unfolding collation_on_def by blast
    ultimately show False by simp
  next
    case False
    with ab ba have "timeBefore (finiteTime a) (finiteTime b)" "timeBefore (finiteTime b) (finiteTime a)"
      unfolding precedes_def by auto
    with timeBefore_asym show False by blast
  qed
qed

subsection \<open>Decomposition of a merge\<close>

lemma mergeArticles_Inr:
  assumes "mergeArticles dp toIso lc ex cs = Inr (arts, ch)"
  obtains m0 m1 where "seedLoop dp toIso ex [] = Inr m0"
    and "itemLoop cs (m0, False) = (m1, ch)"
    and "Array_sort (compareArticles lc) (map snd m1) = Inr arts"
  using assms by (auto simp: mergeArticles_def Let_def split: sum.splits prod.splits)

lemma mapInv_links: "mapInv m \<Longrightarrow> map link (map snd m) = map fst m"
  by (auto simp: mapInv_def)

lemma merged_map:
  assumes "seedLoop dp toIso ex [] = Inr m0" and "itemLoop cs (m0, False) = (m1, ch)"
  shows "mapInv m1"
    and "fst ` set m1 = link ` {a \<in> set ex. truthy (link a)} \<union> link ` {c \<in> set cs. truthy (link c)}"
proof -
  have m0: "mapInv m0" using seedLoop_inv[OF assms(1)] by simp
  from itemLoop_inv[OF this, of cs False] assms(2) show "mapInv m1" by simp
  from itemLoop_keys[of cs m0 False] seedLoop_keys[OF assms(1)] assms(2)
  show "fst ` set m1 = link ` {a \<in> set ex. truthy (link a)} \<union> link ` {c \<in> set cs. truthy (link c)}"
    by simp
qed

lemma merged_articles:
  assumes "mergeArticles dp toIso lc ex cs = Inr (arts, ch)"
  shows "distinct (map link arts)"
    and "link ` set arts = link ` {a \<in> set ex. truthy (link a)} \<union> link ` {c \<in> set cs. truthy (link c)}"
proof -
  from assms obtain m0 m1 where m: "seedLoop dp toIso ex [] = Inr m0"
    "itemLoop cs (m0, False) = (m1, ch)"
    "Array_sort (compareArticles lc) (map snd m1) = Inr arts"
    by (rule mergeArticles_Inr)
  note inv = merged_map[OF m(1,2)]
  from Array_sort_mset[OF m(3)] have ms: "mset arts = mset (map snd m1)" .
  then have "mset (map link arts) = mset (map fst m1)"
    using mapInv_links[OF inv(1)] by (metis mset_map)
  moreover have "distinct (map fst m1)" using inv(1) by (simp add: mapInv_def)
  ultimately show "distinct (map link arts)" by (metis mset_eq_imp_distinct_iff)
  from ms have "set arts = snd ` set m1" by (metis set_mset_mset set_map)
  then have "link ` set arts = fst ` set m1"
    using mapInv_links[OF inv(1)] by (metis image_image list.set_map)
  with inv(2) show "link ` set arts = link ` {a \<in> set ex. truthy (link a)} \<union> link ` {c \<in> set cs. truthy (link c)}"
    by simp
qed

lemma merged_links_in:
  assumes "mergeArticles dp toIso lc ex cs = Inr (arts, ch)" and "linksIn S ex" and "linksIn S cs"
    and "a \<in> set arts"
  shows "\<exists>s\<in>S. link a = Str s"
proof -
  from merged_articles(2)[OF assms(1)] assms(4)
  have "link a \<in> link ` {a \<in> set ex. truthy (link a)} \<union> link ` {c \<in> set cs. truthy (link c)}"
    by blast
  with assms(2,3) show ?thesis unfolding linksIn_def by auto
qed

lemma seedArticle_returns:
  assumes "\<forall>v. \<exists>s. toIso v = Inr s"
  shows "\<exists>s. seedArticle dp toIso a = Inr s"
proof -
  obtain t where "toIso (publishedAtMs a) = Inr t" using assms by blast
  then show ?thesis by (simp add: seedArticle_def)
qed

lemma seedLoop_returns:
  assumes "\<forall>v. \<exists>s. toIso v = Inr s"
  shows "\<exists>m'. seedLoop dp toIso ex m = Inr m'"
proof (induction ex arbitrary: m)
  case Nil
  show ?case by simp
next
  case (Cons a ex)
  obtain s where "seedArticle dp toIso a = Inr s"
    using seedArticle_returns[of toIso dp a] assms by blast
  with Cons show ?case by simp
qed

lemma values_ordered:
  assumes col: "collation_on S lc"
    and vals: "\<And>a. a \<in> set xs \<Longrightarrow> \<exists>s\<in>S. link a = Str s"
    and dist: "distinct (map link xs)"
  shows "\<exists>ys. Array_sort (compareArticles lc) xs = Inr ys \<and> sorted_wrt (precedes lc) ys"
proof (rule Array_sort_sorted)
  fix a b assume ab: "a \<in> set xs" "b \<in> set xs" "a \<noteq> b"
  from vals[OF ab(1)] vals[OF ab(2)] obtain x y where
    xy: "link a = Str x" "x \<in> S" "link b = Str y" "y \<in> S" by blast
  from dist ab have "link a \<noteq> link b"
    by (auto simp: distinct_map inj_on_def)
  with xy have "x \<noteq> y" by auto
  from compare_decides[OF col xy this]
  show "\<exists>v. compareArticles lc a b = Inr v \<and> (if num_pos v then precedes lc b a else precedes lc a b)" .
next
  fix a b c assume abc: "a \<in> set xs" "b \<in> set xs" "c \<in> set xs"
    and r: "precedes lc a b" "precedes lc b c"
  from vals[OF abc(1)] vals[OF abc(2)] vals[OF abc(3)] obtain x y z where
    "link a = Str x" "x \<in> S" "link b = Str y" "y \<in> S" "link c = Str z" "z \<in> S" by blast
  from precedes_trans[OF col this r] show "precedes lc a c" .
next
  show "distinct xs" using dist by (simp add: distinct_map)
qed

lemma merge_sorted:
  assumes col: "collation_on S lc" and ex: "linksIn S existing" and cs: "linksIn S items"
    and merge: "mergeArticles dp toIso lc existing items = Inr (arts, changed)"
  shows "sorted_wrt (precedes lc) arts"
proof -
  from merge obtain m0 m1 where m: "seedLoop dp toIso existing [] = Inr m0"
    "itemLoop items (m0, False) = (m1, changed)"
    "Array_sort (compareArticles lc) (map snd m1) = Inr arts"
    by (rule mergeArticles_Inr)
  note inv = merged_map[OF m(1,2)]
  have dist: "distinct (map link (map snd m1))"
    unfolding mapInv_links[OF inv(1)] using inv(1) by (simp add: mapInv_def)
  have vals: "\<exists>s\<in>S. link a = Str s" if "a \<in> set (map snd m1)" for a
  proof -
    from that obtain k where "(k, a) \<in> set m1" by auto
    with inv(1) have "link a = k" "truthy k" "k \<in> fst ` set m1"
      by (auto simp: mapInv_def intro: rev_image_eqI)
    with inv(2) ex cs show ?thesis unfolding linksIn_def by auto
  qed
  from values_ordered[OF col vals dist] m(3) show ?thesis by auto
qed

lemma merge_returns:
  assumes col: "collation_on S lc" and ex: "linksIn S existing" and cs: "linksIn S items"
    and tot: "\<forall>v. \<exists>s. toIso v = Inr s"
  shows "\<exists>arts changed. mergeArticles dp toIso lc existing items = Inr (arts, changed)"
proof -
  from seedLoop_returns[OF tot, of dp existing "[]"]
  obtain m0 where m0: "seedLoop dp toIso existing [] = Inr m0"
    by blast
  obtain m1 ch where m1: "itemLoop items (m0, False) = (m1, ch)" by fastforce
  note inv = merged_map[OF m0 m1]
  have dist: "distinct (map link (map snd m1))"
    unfolding mapInv_links[OF inv(1)] using inv(1) by (simp add: mapInv_def)
  have vals: "\<exists>s\<in>S. link a = Str s" if "a \<in> set (map snd m1)" for a
  proof -
    from that obtain k where "(k, a) \<in> set m1" by auto
    with inv(1) have "link a = k" "truthy k" "k \<in> fst ` set m1"
      by (auto simp: mapInv_def intro: rev_image_eqI)
    with inv(2) ex cs show ?thesis unfolding linksIn_def by auto
  qed
  from values_ordered[OF col vals dist] obtain ys where
    "Array_sort (compareArticles lc) (map snd m1) = Inr ys" by blast
  with m0 m1 show ?thesis by (simp add: mergeArticles_def)
qed

subsection \<open>C4: the order of the merged list\<close>


lemma fieldDiffers_self [simp]: "\<not> fieldDiffers x x"
  by (cases x) (auto simp: fieldDiffers_def strict_neq_def)

lemma fieldDiffers_falsy [simp]: "\<not> truthy x \<Longrightarrow> \<not> fieldDiffers x y"
  by (simp add: fieldDiffers_def)

lemma touch_absorbs: "\<not> changes (Some (touch eo c)) c"
proof (cases eo)
  case None
  then show ?thesis
    by (simp add: changes_def touch_def updateExisting_updated newArticle_def js_or_def)
next
  case (Some ex)
  then show ?thesis
    by (simp add: changes_def touch_def updateExisting_updated updateExisting_fields)
qed

lemma seedArticle_publishedAt:
  assumes "seedArticle dp toIso a = Inr s"
  shows "publishedAt s =
           (if truthy (publishedAt a) then publishedAt a
            else if truthy (publishedAtMs a)
                 then (case toIso (publishedAtMs a) of Inr t \<Rightarrow> Str t | Inl e \<Rightarrow> Null)
                 else Null)"
  using assms by (auto simp: seedArticle_def split: if_splits sum.splits)

lemma seedArticle_Inr_iff:
  "(\<exists>s. seedArticle dp toIso a = Inr s) \<longleftrightarrow>
     truthy (publishedAt a) \<or> \<not> truthy (publishedAtMs a) \<or> (\<exists>t. toIso (publishedAtMs a) = Inr t)"
  by (auto simp: seedArticle_def split: if_splits sum.splits)

lemma seedArticle_idem:
  assumes seed: "seedArticle dp toIso a = Inr s" and ok: "timeFieldsOk a"
  shows "seedArticle dp toIso s = Inr s"
proof -
  note f = seedArticle_fields[OF seed]
  note pa = seedArticle_publishedAt[OF seed]
  have ms_keep: "publishedAtMs s = publishedAtMs a" if "Number_isFinite (publishedAtMs a)"
    using f(8) that by simp
  have "\<exists>s2. seedArticle dp toIso s = Inr s2"
  proof (cases "truthy (publishedAt a) \<or> \<not> truthy (publishedAtMs a)")
    case True
    then have "truthy (publishedAt s) \<or> \<not> truthy (publishedAtMs s)"
      using f(8) pa by (cases "Number_isFinite (publishedAtMs a)") auto
    then show ?thesis using seedArticle_Inr_iff[of dp toIso s] by blast
  next
    case False
    with ok have fin: "Number_isFinite (publishedAtMs a)" by (simp add: timeFieldsOk_def)
    from False seed obtain t where "toIso (publishedAtMs a) = Inr t"
      using seedArticle_Inr_iff[of dp toIso a] by auto
    with ms_keep[OF fin] show ?thesis using seedArticle_Inr_iff[of dp toIso s] by auto
  qed
  then obtain s2 where s2: "seedArticle dp toIso s = Inr s2" by blast
  note g = seedArticle_fields[OF s2]
  note pa2 = seedArticle_publishedAt[OF s2]
  have "publishedAtMs s2 = publishedAtMs s"
    unfolding g(8) using f(8) pa ok
    by (cases "Number_isFinite (publishedAtMs a)"; cases "truthy (publishedAt a)")
       (auto simp: timeFieldsOk_def)
  moreover have "publishedAt s2 = publishedAt s"
  proof (cases "truthy (publishedAt a) \<or> \<not> truthy (publishedAtMs a)")
    case True
    then show ?thesis
      unfolding pa2 using f(8) pa by (cases "Number_isFinite (publishedAtMs a)") auto
  next
    case False
    with ok have fin: "Number_isFinite (publishedAtMs a)" by (simp add: timeFieldsOk_def)
    from False seed obtain t where "toIso (publishedAtMs a) = Inr t"
      using seedArticle_Inr_iff[of dp toIso a] by auto
    with False ms_keep[OF fin] pa show ?thesis unfolding pa2 by simp
  qed
  moreover have "sent s2 = sent s" "sentAt s2 = sentAt s" "guid s2 = guid s"
    unfolding g f by (simp_all add: js_or_def)
  ultimately have "s2 = s"
    using g(1-4) by (intro article.equality) simp_all
  with s2 show ?thesis by simp
qed

lemma seedFixed_iff:
  "seedFixed dp toIso v \<longleftrightarrow>
     (\<exists>b. sent v = Bool b) \<and> (truthy (sentAt v) \<or> sentAt v = Null)
   \<and> (is_string (guid v) \<or> guid v = Null)
   \<and> (Number_isFinite (publishedAtMs v)
        \<or> (if truthy (publishedAt v) then publishedAtMs v = Num (dp (publishedAt v))
            else publishedAtMs v = Null))
   \<and> (truthy (publishedAt v)
        \<or> (if truthy (publishedAtMs v) then \<exists>t. toIso (publishedAtMs v) = Inr t \<and> publishedAt v = Str t
            else publishedAt v = Null))"
  (is "?L \<longleftrightarrow> ?R")
proof
  assume ?L
  then have s: "seedArticle dp toIso v = Inr v" by (simp add: seedFixed_def)
  note f = seedArticle_fields[OF s] seedArticle_publishedAt[OF s]
  from f(5) have "\<exists>b. sent v = Bool b" by blast
  moreover from f(6) have "truthy (sentAt v) \<or> sentAt v = Null" by (auto simp: js_or_def split: if_splits)
  moreover from f(7) have "is_string (guid v) \<or> guid v = Null" by (auto split: if_splits)
  moreover from f(8) have "Number_isFinite (publishedAtMs v)
        \<or> (if truthy (publishedAt v) then publishedAtMs v = Num (dp (publishedAt v))
            else publishedAtMs v = Null)" by (auto split: if_splits)
  moreover from f(10) s have "truthy (publishedAt v)
        \<or> (if truthy (publishedAtMs v) then \<exists>t. toIso (publishedAtMs v) = Inr t \<and> publishedAt v = Str t
            else publishedAt v = Null)"
    using seedArticle_Inr_iff[of dp toIso v] by (auto split: if_splits sum.splits)
  ultimately show ?R by blast
next
  assume r: ?R
  then have "\<exists>s. seedArticle dp toIso v = Inr s"
    using seedArticle_Inr_iff[of dp toIso v] by (auto split: if_splits)
  then obtain s where s: "seedArticle dp toIso v = Inr s" by blast
  note f = seedArticle_fields[OF s] seedArticle_publishedAt[OF s]
  have "sent s = sent v" using r f(5) by auto
  moreover have "sentAt s = sentAt v" using r f(6) by (auto simp: js_or_def)
  moreover have "guid s = guid v" using r f(7) by auto
  moreover have "publishedAtMs s = publishedAtMs v" using r f(8) by (auto split: if_splits)
  moreover have "publishedAt s = publishedAt v" using r f(10) by (auto split: if_splits)
  ultimately have "s = v" using f(1-4) by (intro article.equality) simp_all
  with s show ?L by (simp add: seedFixed_def)
qed

lemma newArticle_fixed: "feedItem c \<Longrightarrow> seedFixed dp toIso (newArticle c)"
  unfolding seedFixed_iff
  by (cases "guid c") (auto simp: feedItem_def newArticle_def js_or_def)

lemma updateExisting_fixed:
  assumes "seedFixed dp toIso ex" and "feedItem c"
  shows "seedFixed dp toIso (fst (updateExisting ex c))"
proof -
  have g: "is_string (guid c)" if "fieldDiffers (guid c) (guid ex)"
    using that assms(2) by (simp add: fieldDiffers_def feedItem_def)
  from assms g show ?thesis
    unfolding seedFixed_iff updateExisting_fields updateExisting_sent
    by (auto simp: feedItem_def fieldDiffers_def)
qed

lemma touch_fixed:
  assumes "\<And>ex. eo = Some ex \<Longrightarrow> seedFixed dp toIso ex" and "feedItem c"
  shows "seedFixed dp toIso (touch eo c)"
  using assms by (cases eo) (simp_all add: touch_def newArticle_fixed updateExisting_fixed)

lemma Map_get_in: "Map_get m k = Some v \<Longrightarrow> (k, v) \<in> set m"
  by (simp add: Map_get_def map_of_SomeD)

lemma itemLoop_fixed:
  assumes "\<And>k v. (k, v) \<in> set m \<Longrightarrow> seedFixed dp toIso v"
    and "\<And>c. c \<in> set cs \<Longrightarrow> truthy (link c) \<Longrightarrow> feedItem c"
    and "(k, v) \<in> set (fst (itemLoop cs (m, f)))"
  shows "seedFixed dp toIso v"
  using assms
proof (induction cs arbitrary: m f)
  case Nil
  then show ?case by simp
next
  case (Cons c cs)
  show ?case
  proof (cases "truthy (link c)")
    case False
    with Cons.prems(3) have "(k, v) \<in> set (fst (itemLoop cs (m, f)))" by simp
    from Cons.IH[OF Cons.prems(1) _ this] Cons.prems(2) show ?thesis by simp
  next
    case True
    let ?t = "touch (Map_get m (link c)) c"
    let ?m = "if changes (Map_get m (link c)) c then Map_set m (link c) ?t else m"
    have t: "seedFixed dp toIso ?t"
      by (rule touch_fixed) (auto dest: Map_get_in Cons.prems(1) intro: Cons.prems(2) True)
    have m: "seedFixed dp toIso v'" if "(k', v') \<in> set ?m" for k' v'
      using that t Cons.prems(1) Map_set_subset[of m "link c" ?t] by (auto split: if_splits)
    from Cons.prems(3) have "(k, v) \<in> set (fst (itemLoop cs (?m, f \<or> changes (Map_get m (link c)) c)))"
      unfolding itemLoop_step[OF True] .
    from Cons.IH[OF m _ this] Cons.prems(2) show ?thesis by simp
  qed
qed

lemma seedLoop_fixed_values:
  assumes "seedLoop dp toIso ex m = Inr m'"
    and "\<And>k v. (k, v) \<in> set m \<Longrightarrow> seedFixed dp toIso v"
    and "\<And>a. a \<in> set ex \<Longrightarrow> truthy (link a) \<Longrightarrow> timeFieldsOk a"
    and "(k, v) \<in> set m'"
  shows "seedFixed dp toIso v"
  using assms
proof (induction ex arbitrary: m)
  case Nil
  then show ?case by simp
next
  case (Cons a ex)
  show ?case
  proof (cases "truthy (link a)")
    case False
    with Cons.prems(1) have "seedLoop dp toIso ex m = Inr m'" by simp
    from Cons.IH[OF this Cons.prems(2) _ Cons.prems(4)] Cons.prems(3) show ?thesis by simp
  next
    case True
    with Cons.prems(1) obtain s where s: "seedArticle dp toIso a = Inr s"
      and rest: "seedLoop dp toIso ex (Map_set m (link a) s) = Inr m'"
      by (auto split: sum.splits)
    have "seedFixed dp toIso s"
      using seedArticle_idem[OF s] Cons.prems(3)[of a] True by (simp add: seedFixed_def)
    then have m: "seedFixed dp toIso v'" if "(k', v') \<in> set (Map_set m (link a) s)" for k' v'
      using that Cons.prems(2) Map_set_subset[of m "link a" s] by auto
    from Cons.IH[OF rest m _ Cons.prems(4)] Cons.prems(3) show ?thesis by simp
  qed
qed

subsection \<open>C2: merge is idempotent\<close>


lemma seedLoop_dom:
  assumes "seedLoop dp toIso ex [] = Inr m0" and "truthy k"
  shows "Map_get m0 k = None \<longleftrightarrow> k \<notin> link ` set ex"
proof -
  from seedLoop_keys[OF assms(1)] have "fst ` set m0 = link ` {a \<in> set ex. truthy (link a)}" by simp
  with assms(2) show ?thesis unfolding Map_get_None by auto
qed

subsection \<open>C3: re-observation\<close>

text \<open>
  C3. With at most one record and at most one item per link: every existing article
  \<open>a\<close> with a link is in the result as an article \<open>a'\<close> whose \<open>sent\<close> and \<open>sentAt\<close> are
  those of \<open>a\<close> (as a boolean, and null for a missing \<open>sentAt\<close>); \<open>a'\<close> is the record as
  the first loop copies it when no item has its link, and otherwise differs from that
  copy \<open>s\<close> only in those of title, description, thumbnail, guid and publishedAt (with
  publishedAtMs) whose value in the item is non-empty and differs from the stored one.
  \<open>hasChanges\<close> is true exactly when some item has a new link or differs in such a field
  from the stored copy under its link; when every item equals the stored copy in the five
  fields, \<open>hasChanges\<close> is false.
\<close>

theorem merge_reobservation:
  assumes merge: "mergeArticles dp toIso lc existing items = Inr (arts, changed)"
    and dist_ex: "distinct (filter truthy (map link existing))"
    and dist_cs: "distinct (filter truthy (map link items))"
  shows
    "(\<forall>a\<in>set existing. truthy (link a) \<longrightarrow>
        (\<exists>s a'. seedArticle dp toIso a = Inr s \<and> a' \<in> set arts \<and> link a' = link a
           \<and> sent a' = Bool (truthy (sent a)) \<and> sentAt a' = js_or (sentAt a) Null
           \<and> ((\<forall>c\<in>set items. link c \<noteq> link a) \<longrightarrow> a' = s)
           \<and> (\<forall>c\<in>set items. link c = link a \<longrightarrow>
                 title a' = (if fieldDiffers (title c) (title s) then title c else title s)
               \<and> description a' =
                   (if fieldDiffers (description c) (description s) then description c else description s)
               \<and> thumbnail a' =
                   (if fieldDiffers (thumbnail c) (thumbnail s) then thumbnail c else thumbnail s)
               \<and> guid a' = (if fieldDiffers (guid c) (guid s) then guid c else guid s)
               \<and> publishedAt a' =
                   (if fieldDiffers (publishedAt c) (publishedAt s) then publishedAt c else publishedAt s)
               \<and> publishedAtMs a' =
                   (if fieldDiffers (publishedAt c) (publishedAt s) then publishedAtMs c
                    else publishedAtMs s))))
   \<and> (changed \<longleftrightarrow>
        (\<exists>c\<in>set items. truthy (link c) \<and>
           (link c \<notin> link ` set existing
            \<or> (\<exists>a\<in>set existing. \<exists>s. link a = link c \<and> seedArticle dp toIso a = Inr s
                 \<and> (fieldDiffers (title c) (title s) \<or> fieldDiffers (description c) (description s)
                    \<or> fieldDiffers (thumbnail c) (thumbnail s) \<or> fieldDiffers (guid c) (guid s)
                    \<or> fieldDiffers (publishedAt c) (publishedAt s))))))
   \<and> ((\<forall>c\<in>set items. truthy (link c) \<longrightarrow>
          (\<exists>a\<in>set existing. \<exists>s. link a = link c \<and> seedArticle dp toIso a = Inr s
             \<and> title c = title s \<and> description c = description s \<and> thumbnail c = thumbnail s
             \<and> guid c = guid s \<and> publishedAt c = publishedAt s))
        \<longrightarrow> \<not> changed)"
proof -
  from merge obtain m0 m1 where m: "seedLoop dp toIso existing [] = Inr m0"
    "itemLoop items (m0, False) = (m1, changed)"
    "Array_sort (compareArticles lc) (map snd m1) = Inr arts"
    by (rule mergeArticles_Inr)
  have set_arts: "set arts = snd ` set m1"
    using Array_sort_mset[OF m(3)] by (metis set_mset_mset set_map)
  have in_arts: "v \<in> set arts" if "Map_get m1 k = Some v" for k v
    using Map_get_in[OF that] set_arts by (auto intro: rev_image_eqI)
  have seeded: "\<exists>s. seedArticle dp toIso a = Inr s \<and> Map_get m0 (link a) = Some s"
    if "a \<in> set existing" "truthy (link a)" for a
    using seedLoop_lookup[OF m(1) dist_ex that] .
  have ch: "changed \<longleftrightarrow> (\<exists>c\<in>set items. truthy (link c) \<and> changes (Map_get m0 (link c)) c)"
    using itemLoop_changed[OF dist_cs, of m0 False] m(2) by simp

  have part1: "\<exists>s a'. seedArticle dp toIso a = Inr s \<and> a' \<in> set arts \<and> link a' = link a
           \<and> sent a' = Bool (truthy (sent a)) \<and> sentAt a' = js_or (sentAt a) Null
           \<and> ((\<forall>c\<in>set items. link c \<noteq> link a) \<longrightarrow> a' = s)
           \<and> (\<forall>c\<in>set items. link c = link a \<longrightarrow>
                 title a' = (if fieldDiffers (title c) (title s) then title c else title s)
               \<and> description a' =
                   (if fieldDiffers (description c) (description s) then description c else description s)
               \<and> thumbnail a' =
                   (if fieldDiffers (thumbnail c) (thumbnail s) then thumbnail c else thumbnail s)
               \<and> guid a' = (if fieldDiffers (guid c) (guid s) then guid c else guid s)
               \<and> publishedAt a' =
                   (if fieldDiffers (publishedAt c) (publishedAt s) then publishedAt c else publishedAt s)
               \<and> publishedAtMs a' =
                   (if fieldDiffers (publishedAt c) (publishedAt s) then publishedAtMs c
                    else publishedAtMs s))"
    if a: "a \<in> set existing" "truthy (link a)" for a
  proof -
    from seeded[OF a] obtain s where s: "seedArticle dp toIso a = Inr s"
      "Map_get m0 (link a) = Some s" by blast
    note f = seedArticle_fields[OF s(1)]
    show ?thesis
    proof (cases "\<exists>c\<in>set items. link c = link a")
      case False
      then have "link a \<notin> link ` {c \<in> set items. truthy (link c)}" by auto
      from itemLoop_other[OF this, of m0 False] m(2) s(2) have "Map_get m1 (link a) = Some s"
        by simp
      from in_arts[OF this] s(1) f False show ?thesis by auto
    next
      case True
      then obtain c where c: "c \<in> set items" "link c = link a" by blast
      with a have tc: "truthy (link c)" by simp
      let ?a' = "fst (updateExisting s c)"
      from itemLoop_lookup[OF dist_cs c(1) tc, of m0 False] m(2) s(2) c(2)
      have look: "Map_get m1 (link a) = Some ?a'" by (simp add: touch_def)
      have same: "?a' = fst (updateExisting s d)" if d: "d \<in> set items" "link d = link a" for d
      proof -
        from d a have td: "truthy (link d)" by simp
        from itemLoop_lookup[OF dist_cs d(1) td, of m0 False] m(2) s(2) d(2)
        have "Map_get m1 (link a) = Some (fst (updateExisting s d))" by (simp add: touch_def)
        with look show ?thesis by simp
      qed
      have fields: "title ?a' = (if fieldDiffers (title d) (title s) then title d else title s)
               \<and> description ?a' =
                   (if fieldDiffers (description d) (description s) then description d else description s)
               \<and> thumbnail ?a' =
                   (if fieldDiffers (thumbnail d) (thumbnail s) then thumbnail d else thumbnail s)
               \<and> guid ?a' = (if fieldDiffers (guid d) (guid s) then guid d else guid s)
               \<and> publishedAt ?a' =
                   (if fieldDiffers (publishedAt d) (publishedAt s) then publishedAt d else publishedAt s)
               \<and> publishedAtMs ?a' =
                   (if fieldDiffers (publishedAt d) (publishedAt s) then publishedAtMs d
                    else publishedAtMs s)"
        if d: "d \<in> set items" "link d = link a" for d
        unfolding same[OF d] by (simp only: updateExisting_fields)
      have basics: "?a' \<in> set arts" "link ?a' = link a" "sent ?a' = Bool (truthy (sent a))"
        "sentAt ?a' = js_or (sentAt a) Null"
        using in_arts[OF look] f by simp_all
      from s(1) basics fields True show ?thesis by blast
    qed
  qed

  have part2: "changed \<longleftrightarrow>
        (\<exists>c\<in>set items. truthy (link c) \<and>
           (link c \<notin> link ` set existing
            \<or> (\<exists>a\<in>set existing. \<exists>s. link a = link c \<and> seedArticle dp toIso a = Inr s
                 \<and> (fieldDiffers (title c) (title s) \<or> fieldDiffers (description c) (description s)
                    \<or> fieldDiffers (thumbnail c) (thumbnail s) \<or> fieldDiffers (guid c) (guid s)
                    \<or> fieldDiffers (publishedAt c) (publishedAt s)))))"
  proof -
    have "changes (Map_get m0 (link c)) c \<longleftrightarrow>
           (link c \<notin> link ` set existing
            \<or> (\<exists>a\<in>set existing. \<exists>s. link a = link c \<and> seedArticle dp toIso a = Inr s
                 \<and> (fieldDiffers (title c) (title s) \<or> fieldDiffers (description c) (description s)
                    \<or> fieldDiffers (thumbnail c) (thumbnail s) \<or> fieldDiffers (guid c) (guid s)
                    \<or> fieldDiffers (publishedAt c) (publishedAt s))))"
      if tc: "truthy (link c)" for c
    proof (cases "link c \<in> link ` set existing")
      case False
      with seedLoop_dom[OF m(1) tc] show ?thesis by (simp add: changes_def)
    next
      case True
      then obtain a where a: "a \<in> set existing" "link a = link c" by auto
      with tc seeded[of a] obtain s where s: "seedArticle dp toIso a = Inr s"
        "Map_get m0 (link c) = Some s" by auto
      let ?D = "\<lambda>s. fieldDiffers (title c) (title s) \<or> fieldDiffers (description c) (description s)
                    \<or> fieldDiffers (thumbnail c) (thumbnail s) \<or> fieldDiffers (guid c) (guid s)
                    \<or> fieldDiffers (publishedAt c) (publishedAt s)"
      have lhs: "changes (Map_get m0 (link c)) c \<longleftrightarrow> ?D s"
        by (simp add: s(2) changes_def updateExisting_updated)
      have rhs: "(\<exists>a\<in>set existing. \<exists>s'. link a = link c \<and> seedArticle dp toIso a = Inr s' \<and> ?D s')
                   \<longleftrightarrow> ?D s"
      proof
        assume "\<exists>a\<in>set existing. \<exists>s'. link a = link c \<and> seedArticle dp toIso a = Inr s' \<and> ?D s'"
        then obtain b s' where b: "b \<in> set existing" "link b = link c"
          "seedArticle dp toIso b = Inr s'" "?D s'" by blast
        from seeded[of b] b(1,2,3) tc s(2) have "s' = s" by auto
        with b(4) show "?D s" by simp
      next
        assume "?D s"
        with a s(1) show "\<exists>a\<in>set existing. \<exists>s'. link a = link c \<and> seedArticle dp toIso a = Inr s' \<and> ?D s'"
          by blast
      qed
      from True lhs rhs show ?thesis by simp
    qed
    with ch show ?thesis by blast
  qed

  have part3: "\<not> changed"
    if "\<forall>c\<in>set items. truthy (link c) \<longrightarrow>
          (\<exists>a\<in>set existing. \<exists>s. link a = link c \<and> seedArticle dp toIso a = Inr s
             \<and> title c = title s \<and> description c = description s \<and> thumbnail c = thumbnail s
             \<and> guid c = guid s \<and> publishedAt c = publishedAt s)"
  proof
    assume changed
    with ch obtain c where c: "c \<in> set items" "truthy (link c)" "changes (Map_get m0 (link c)) c"
      by blast
    with that obtain a s where as: "a \<in> set existing" "link a = link c" "seedArticle dp toIso a = Inr s"
      "title c = title s" "description c = description s" "thumbnail c = thumbnail s"
      "guid c = guid s" "publishedAt c = publishedAt s" by blast
    with seeded[of a] c(2) have "Map_get m0 (link c) = Some s" by auto
    with c(3) as show False by (simp add: changes_def updateExisting_updated)
  qed
  from part1 part2 part3 show ?thesis by blast
qed

subsection \<open>The merge theorems on the example data\<close>

lemma strCompare_eq: "strCompare x y = 0 \<longleftrightarrow> x = y"
  by (induction x y rule: strCompare.induct) auto

lemma strCompare_neg: "strCompare x y < 0 \<longleftrightarrow> 0 < strCompare y x"
  by (induction x y rule: strCompare.induct) auto

lemma strCompare_Cons_neg:
  "strCompare (x # xs) (y # ys) < 0 \<longleftrightarrow>
     (of_char x :: nat) < of_char y \<or> ((of_char x :: nat) = of_char y \<and> strCompare xs ys < 0)"
  by auto

lemma strCompare_Nil_neg: "strCompare [] ys < 0 \<longleftrightarrow> ys \<noteq> []" "\<not> strCompare xs [] < 0"
  by (cases ys, simp_all) (cases xs, simp_all)

lemma strCompare_trans: "strCompare x y < 0 \<Longrightarrow> strCompare y z < 0 \<Longrightarrow> strCompare x z < 0"
proof (induction x arbitrary: y z)
  case Nil
  then show ?case by (cases z) (simp_all add: strCompare_Nil_neg)
next
  case (Cons a x)
  from Cons.prems obtain b y' where y: "y = b # y'"
    by (cases y) (simp_all add: strCompare_Nil_neg)
  from Cons.prems y obtain c z' where z: "z = c # z'"
    by (cases z) (simp_all add: strCompare_Nil_neg)
  from Cons.prems have
    ab: "(of_char a :: nat) < of_char b \<or> ((of_char a :: nat) = of_char b \<and> strCompare x y' < 0)" and
    bc: "(of_char b :: nat) < of_char c \<or> ((of_char b :: nat) = of_char c \<and> strCompare y' z' < 0)"
    unfolding y z strCompare_Cons_neg by blast+
  have "(of_char a :: nat) < of_char c \<or> ((of_char a :: nat) = of_char c \<and> strCompare x z' < 0)"
    using ab bc Cons.IH[of y' z'] by auto
  then show ?case unfolding z strCompare_Cons_neg .
qed

lemma collation_codeUnitCompare: "collation_on S codeUnitCompare"
proof -
  have "codeUnitCompare x (Str y) = strCompare x y" for x y
    by (simp add: codeUnitCompare_def)
  then show ?thesis
    unfolding collation_on_def
    by (simp only: strCompare_eq strCompare_neg[symmetric]) (blast intro: strCompare_trans)
qed

lemmas example_defs = itemA_def itemB_def itemC_def trackedA_def exampleDateParse_def
  exampleToISOString_def codeUnitCompare_def

lemmas merge_defs = mergeArticles_def seedArticle_def updateExisting_def newArticle_def
  fieldDiffers_def strict_neq_def js_or_def Map_get_def compareArticles_def timeKey_def Let_def

lemma example_merge_fresh: "mergeArticles exampleDateParse exampleToISOString codeUnitCompare [] [itemC, itemB, itemA]
   = Inr ([newArticle itemA, newArticle itemB, newArticle itemC], True)"
  by (simp add: merge_defs example_defs)

lemma example_merge_reobserved: "mergeArticles exampleDateParse exampleToISOString codeUnitCompare [trackedA] [itemA, itemB]
   = Inr ([trackedA\<lparr>title := Str ''A''\<rparr>, newArticle itemB], True)"
  by (simp add: merge_defs example_defs)


lemma linksIn_UNIV_strings: "(\<And>a. a \<in> set as \<Longrightarrow> is_string (link a)) \<Longrightarrow> linksIn UNIV as"
  unfolding linksIn_def
proof (intro ballI impI)
  fix a assume a: "a \<in> set as" and "\<And>a. a \<in> set as \<Longrightarrow> is_string (link a)"
  then have "is_string (link a)" by blast
  then show "\<exists>s\<in>UNIV. link a = Str s" by (cases "link a") simp_all
qed



theorem merge_reobservation_witness:
  "mergeArticles exampleDateParse exampleToISOString codeUnitCompare [trackedA] [itemA, itemB]
       = Inr ([trackedA\<lparr>title := Str ''A''\<rparr>, newArticle itemB], True)
   \<and> distinct (filter truthy (map link [trackedA]))
   \<and> distinct (filter truthy (map link [itemA, itemB]))
   \<and> (\<exists>a'\<in>set [trackedA\<lparr>title := Str ''A''\<rparr>, newArticle itemB].
         link a' = Str ''a'' \<and> sent a' = Bool True \<and> sentAt a' = Str ''2024-01-01T01:00:00.000Z''
         \<and> title a' = Str ''A'' \<and> description a' = Str ''first'')
   \<and> (\<exists>c\<in>set [itemA, itemB]. truthy (link c) \<and> link c \<notin> link ` set [trackedA])"
proof -
  have m: "mergeArticles exampleDateParse exampleToISOString codeUnitCompare [trackedA] [itemA, itemB]
       = Inr ([trackedA\<lparr>title := Str ''A''\<rparr>, newArticle itemB], True)"
    by (simp add: merge_defs example_defs)
  have d0: "distinct (filter truthy (map link [trackedA]))" by (simp add: example_defs)
  have d1: "distinct (filter truthy (map link [itemA, itemB]))" by (simp add: example_defs)
  show ?thesis
    using merge_reobservation[OF m d0 d1] m d0 d1
    by (simp add: example_defs newArticle_def)
qed

subsection \<open>The delivery loop\<close>

lemma setSentEntry_keeps:
  "Map_get sm h \<noteq> None \<Longrightarrow> Map_get (fst (setSentEntry now sm a)) h \<noteq> None"
  by (auto simp: setSentEntry_def Let_def Map_get_set split: option.splits)

lemma setSentEntry_records:
  assumes "getArticleIdentity a = Some ident" and "sentAt a = Str t"
  shows "\<exists>e. Map_get (fst (setSentEntry now sm a)) (hashIdentifier ident) = Some e
             \<and> e_sentAt e = Str t"
  using assms by (auto simp: setSentEntry_def Let_def Map_get_set split: option.splits)

lemma deliverStep_ok:
  assumes "sink (length (ls_calls st)) (ls_articles st ! i) = Inr True"
  shows "deliverStep sink clock i st =
           Inr (st\<lparr> ls_calls := ls_calls st @ [i],
                    ls_articles := (ls_articles st)
                       [i := (ls_articles st ! i)\<lparr>sent := Bool True, sentAt := Str (clock (length (ls_calls st)))\<rparr>],
                    ls_sentMap := fst (setSentEntry (clock (length (ls_calls st))) (ls_sentMap st)
                       ((ls_articles st ! i)\<lparr>sent := Bool True, sentAt := Str (clock (length (ls_calls st)))\<rparr>)),
                    ls_sentMapDirty := (ls_sentMapDirty st \<or> snd (setSentEntry (clock (length (ls_calls st))) (ls_sentMap st)
                       ((ls_articles st ! i)\<lparr>sent := Bool True, sentAt := Str (clock (length (ls_calls st)))\<rparr>))),
                    ls_successCount := ls_successCount st + 1,
                    ls_sendSuccess := True \<rparr>)"
  using assms by (simp add: deliverStep_def Let_def split: prod.splits)

lemma deliverStep_rejected:
  assumes "sink (length (ls_calls st)) (ls_articles st ! i) = Inr False"
  shows "deliverStep sink clock i st = Inr (st\<lparr>ls_calls := ls_calls st @ [i]\<rparr>)"
  using assms by (simp add: deliverStep_def Let_def)

lemma deliverStep_throws:
  assumes "sink (length (ls_calls st)) (ls_articles st ! i) = Inl e"
  shows "deliverStep sink clock i st = Inl e"
  using assms by (simp add: deliverStep_def Let_def)

lemma deliverStep_cases:
  obtains (ok) "sink (length (ls_calls st)) (ls_articles st ! i) = Inr True"
        | (rejected) "sink (length (ls_calls st)) (ls_articles st ! i) = Inr False"
        | (throws) e where "sink (length (ls_calls st)) (ls_articles st ! i) = Inl e"
  by (cases "sink (length (ls_calls st)) (ls_articles st ! i)") auto

lemma deliverStep_frame:
  assumes "deliverStep sink clock i st = Inr st'"
  shows "ls_calls st' = ls_calls st @ [i]"
    and "length (ls_articles st') = length (ls_articles st)"
    and "j \<noteq> i \<Longrightarrow> ls_articles st' ! j = ls_articles st ! j"
    and "Map_get (ls_sentMap st) h \<noteq> None \<Longrightarrow> Map_get (ls_sentMap st') h \<noteq> None"
proof -
  show "ls_calls st' = ls_calls st @ [i]"
    using assms by (cases rule: deliverStep_cases[of sink st i])
      (auto simp: deliverStep_ok deliverStep_rejected deliverStep_throws)
  show "length (ls_articles st') = length (ls_articles st)"
    using assms by (cases rule: deliverStep_cases[of sink st i])
      (auto simp: deliverStep_ok deliverStep_rejected deliverStep_throws)
  show "j \<noteq> i \<Longrightarrow> ls_articles st' ! j = ls_articles st ! j"
    using assms by (cases rule: deliverStep_cases[of sink st i])
      (auto simp: deliverStep_ok deliverStep_rejected deliverStep_throws)
  show "Map_get (ls_sentMap st) h \<noteq> None \<Longrightarrow> Map_get (ls_sentMap st') h \<noteq> None"
    using assms setSentEntry_keeps by (cases rule: deliverStep_cases[of sink st i])
      (auto simp: deliverStep_ok deliverStep_rejected deliverStep_throws)
qed

lemma deliverLoop_append:
  "deliverLoop sink clock (pre @ post) st =
     (case deliverLoop sink clock pre st of Inl e \<Rightarrow> Inl e | Inr s \<Rightarrow> deliverLoop sink clock post s)"
  by (induction pre arbitrary: st) (auto split: sum.splits)

lemma deliverStep_returns:
  assumes "\<forall>k a. \<exists>b. sink k a = Inr b"
  shows "\<exists>st'. deliverStep sink clock i st = Inr st'"
proof -
  from assms obtain b where "sink (length (ls_calls st)) (ls_articles st ! i) = Inr b" by blast
  then show ?thesis by (cases b) (auto simp: deliverStep_ok deliverStep_rejected)
qed

lemma deliverLoop_returns:
  assumes "\<forall>k a. \<exists>b. sink k a = Inr b"
  shows "\<exists>st'. deliverLoop sink clock q st = Inr st'"
proof (induction q arbitrary: st)
  case Nil
  show ?case by simp
next
  case (Cons i q)
  from deliverStep_returns[OF assms, of clock i st]
  obtain st1 where "deliverStep sink clock i st = Inr st1" by blast
  then show ?case using Cons.IH[of st1] by simp
qed

lemma deliverLoop_frame:
  assumes "deliverLoop sink clock q st = Inr st'"
  shows "ls_calls st' = ls_calls st @ q"
    and "length (ls_articles st') = length (ls_articles st)"
    and "j \<notin> set q \<Longrightarrow> ls_articles st' ! j = ls_articles st ! j"
    and "Map_get (ls_sentMap st) h \<noteq> None \<Longrightarrow> Map_get (ls_sentMap st') h \<noteq> None"
  using assms
proof (induction q arbitrary: st)
  case Nil
  { case 1 then show ?case by simp }
  { case 2 then show ?case by simp }
  { case 3 then show ?case by simp }
  { case 4 then show ?case by simp }
next
  case (Cons i q)
  { case 1
    then obtain s where s: "deliverStep sink clock i st = Inr s" "deliverLoop sink clock q s = Inr st'"
      by (auto split: sum.splits)
    show ?case using Cons.IH(1)[OF s(2)] deliverStep_frame(1)[OF s(1)] by simp }
  { case 2
    then obtain s where s: "deliverStep sink clock i st = Inr s" "deliverLoop sink clock q s = Inr st'"
      by (auto split: sum.splits)
    show ?case using Cons.IH(2)[OF s(2)] deliverStep_frame(2)[OF s(1)] by simp }
  { case 3
    then obtain s where s: "deliverStep sink clock i st = Inr s" "deliverLoop sink clock q s = Inr st'"
      by (auto split: sum.splits)
    show ?case using Cons.IH(3)[OF _ s(2)] deliverStep_frame(3)[OF s(1)] 3 by simp }
  { case 4
    then obtain s where s: "deliverStep sink clock i st = Inr s" "deliverLoop sink clock q s = Inr st'"
      by (auto split: sum.splits)
    show ?case using Cons.IH(4)[OF _ s(2)] deliverStep_frame(4)[OF s(1)] 4 by blast }
qed

text \<open>The loop around one selected article.\<close>

lemma deliverLoop_at:
  assumes ret: "deliverLoop sink clock (pre @ i # post) st0 = Inr st3"
    and dist: "distinct (pre @ i # post)" and valid: "i < length (ls_articles st0)"
  obtains st1 st2 where
    "deliverLoop sink clock pre st0 = Inr st1"
    "deliverStep sink clock i st1 = Inr st2"
    "deliverLoop sink clock post st2 = Inr st3"
    "ls_calls st1 = ls_calls st0 @ pre"
    "ls_articles st1 ! i = ls_articles st0 ! i"
    "i < length (ls_articles st1)"
    "ls_articles st3 ! i = ls_articles st2 ! i"
proof -
  from ret obtain st1 st2 where s: "deliverLoop sink clock pre st0 = Inr st1"
    "deliverStep sink clock i st1 = Inr st2" "deliverLoop sink clock post st2 = Inr st3"
    by (auto simp: deliverLoop_append split: sum.splits)
  from dist have "i \<notin> set pre" "i \<notin> set post" by auto
  with deliverLoop_frame[OF s(1)] deliverLoop_frame[OF s(3)] valid s
  show ?thesis by (intro that[of st1 st2]) simp_all
qed

lemma markOne_eq:
  "markOne sentMap a =
     (if truthy (sent a) then a
      else case ledgerEntry sentMap a of None \<Rightarrow> a | Some e \<Rightarrow> reconciled a e)"
  by (auto simp: markOne_def markArticle_def ledgerEntry_def reconciled_def Let_def
           split: option.splits)

lemma markArticle_Some_iff:
  "markArticle sentMap a \<noteq> None \<longleftrightarrow> \<not> truthy (sent a) \<and> ledgerEntry sentMap a \<noteq> None"
  by (auto simp: markArticle_def ledgerEntry_def Let_def split: option.splits)

lemma markOne_sent:
  "truthy (sent (markOne sentMap a)) \<longleftrightarrow> truthy (sent a) \<or> ledgerEntry sentMap a \<noteq> None"
  by (auto simp: markOne_eq reconciled_def split: option.splits)

lemma processRSS_eq:
  assumes "mergeArticles dp toIso lc stateArticles parsedItems = Inr (arts, hasChanges)"
    and "markPreviouslySentArticles arts sentMap = (as1, upd)"
    and "deliverLoop sink clock (toSend (sendLimit testMode) as1)
           \<lparr> ls_articles = as1, ls_sentMap = sentMap, ls_sentMapDirty = dirty,
             ls_successCount = 0, ls_sendSuccess = False, ls_calls = [] \<rparr> = Inr st"
  shows "processRSS dp toIso lc sink clock testMode stateArticles ex sentMap dirty parsedItems =
           Inr \<lparr> r_articles = ls_articles st, r_sentMap = ls_sentMap st, r_calls = ls_calls st,
                 r_saveState = (hasChanges \<or> ls_sendSuccess st \<or> upd \<or> \<not> ex),
                 r_saveSent = ls_sentMapDirty st \<rparr>"
  using assms by (simp add: processRSS_def)

lemma unsentQueue_props:
  "distinct (unsentQueue as)" "sorted_wrt (<) (unsentQueue as)"
  "set (unsentQueue as) = {i. i < length as \<and> \<not> truthy (sent (as ! i))}"
  by (auto simp: unsentQueue_def sorted_wrt_filter)

lemma toSend_props:
  "distinct (toSend n as)" "set (toSend n as) \<subseteq> {i. i < length as \<and> \<not> truthy (sent (as ! i))}"
  using unsentQueue_props[of as] by (auto simp: toSend_def dest: in_set_takeD)

lemma filter_notin_take: "distinct xs \<Longrightarrow> filter (\<lambda>x. x \<notin> set (take n xs)) xs = drop n xs"
proof (induction xs arbitrary: n)
  case Nil
  show ?case by simp
next
  case (Cons x xs)
  show ?case
  proof (cases n)
    case 0
    then show ?thesis by simp
  next
    case (Suc m)
    have "filter (\<lambda>y. y \<noteq> x \<and> y \<notin> set (take m xs)) xs = filter (\<lambda>y. y \<notin> set (take m xs)) xs"
      using Cons.prems by (intro filter_cong) auto
    with Cons Suc show ?thesis by simp
  qed
qed

subsection \<open>C7: partial failure in the delivery loop\<close>


lemma all_accepted_loop:
  assumes ret: "deliverLoop sink clock q st = Inr st'"
    and acc: "\<forall>k a. sink k a = Inr True"
    and dist: "distinct q" and valid: "\<forall>j\<in>set q. j < length (ls_articles st)"
    and i: "i \<in> set q"
  shows "sent (ls_articles st' ! i) = Bool True"
proof -
  from i obtain pre post where q: "q = pre @ i # post" by (auto dest: split_list)
  from valid i have vi: "i < length (ls_articles st)" by simp
  from deliverLoop_at[OF ret[unfolded q] dist[unfolded q] vi] obtain st1 st2 where s:
    "deliverStep sink clock i st1 = Inr st2" "i < length (ls_articles st1)"
    "ls_articles st' ! i = ls_articles st2 ! i"
    by blast
  from acc have "sink (length (ls_calls st1)) (ls_articles st1 ! i) = Inr True" by simp
  with deliverStep_ok[of sink st1 i clock] s(1,2) have "sent (ls_articles st2 ! i) = Bool True"
    by auto
  with s(3) show ?thesis by simp
qed

subsection \<open>C5: bounded, oldest-first selection\<close>


lemma trimmedText_js_or_Null: "trimmedText (js_or g Null) = trimmedText g"
  by (cases g) (auto simp: js_or_def)

lemma getArticleIdentity_newArticle: "getArticleIdentity (newArticle x) = getArticleIdentity x"
  by (simp add: getArticleIdentity_def newArticle_def trimmedText_js_or_Null split: option.splits)

lemma ledgerEntry_newArticle: "ledgerEntry sentMap (newArticle x) = ledgerEntry sentMap x"
  by (simp add: ledgerEntry_def getArticleIdentity_newArticle)

lemma fresh_item_merged:
  assumes merge: "mergeArticles dp toIso lc stateArticles parsedItems = Inr (arts, hasChanges)"
    and dist: "distinct (filter truthy (map link parsedItems))"
    and x: "x \<in> set parsedItems" "truthy (link x)" "link x \<notin> link ` set stateArticles"
  shows "\<exists>i<length arts. arts ! i = newArticle x"
proof -
  from merge obtain m0 m1 where m: "seedLoop dp toIso stateArticles [] = Inr m0"
    "itemLoop parsedItems (m0, False) = (m1, hasChanges)"
    "Array_sort (compareArticles lc) (map snd m1) = Inr arts"
    by (rule mergeArticles_Inr)
  from seedLoop_dom[OF m(1) x(2)] x(3) have "Map_get m0 (link x) = None" by simp
  with itemLoop_lookup[OF dist x(1,2), of m0 False] m(2)
  have "Map_get m1 (link x) = Some (newArticle x)" by (simp add: touch_def)
  then have "(link x, newArticle x) \<in> set m1" by (rule Map_get_in)
  then have "newArticle x \<in> set (map snd m1)" by (auto intro: rev_image_eqI)
  moreover have "set arts = set (map snd m1)"
    using Array_sort_mset[OF m(3)] by (metis set_mset_mset)
  ultimately have "newArticle x \<in> set arts" by simp
  then show ?thesis by (auto simp: in_set_conv_nth)
qed

subsection \<open>C1: reconciliation against the ledger\<close>

text \<open>
  C1. \<open>markPreviouslySentArticles\<close> keeps the length of the list; it changes exactly the
  articles that are unsent and whose identity hash is in the ledger, setting \<open>sent\<close> to
  true and, when the article has no \<open>sentAt\<close> and the entry has one, \<open>sentAt\<close> to the
  entry's; it returns true exactly when some unsent article has been marked. In a cycle
  whose merge returned and whose sink calls return, such an article ends the cycle sent
  and is never handed to the sink; in particular a parsed item whose link is not in the
  bucket (the bucket has rotated) and whose identity hash is in the ledger enters the
  bucket, is marked sent, and is not delivered again.
\<close>

theorem ledger_reconciliation:
  assumes mark: "markPreviouslySentArticles arts sentMap = (as1, mutated)"
  shows "length as1 = length arts
    \<and> (\<forall>i<length arts.
          as1 ! i = (if truthy (sent (arts ! i)) then arts ! i
                     else case ledgerEntry sentMap (arts ! i) of
                            None \<Rightarrow> arts ! i
                          | Some e \<Rightarrow> reconciled (arts ! i) e))
    \<and> (mutated \<longleftrightarrow> (\<exists>i<length arts. \<not> truthy (sent (arts ! i)) \<and> sent (as1 ! i) = Bool True))
    \<and> (mergeArticles dp toIso lc stateArticles parsedItems = Inr (arts, hasChanges)
          \<and> (\<forall>k a. \<exists>b. sink k a = Inr b) \<longrightarrow>
        (\<exists>r. processRSS dp toIso lc sink clock testMode stateArticles ex sentMap dirty parsedItems = Inr r
           \<and> (\<forall>i<length arts. \<not> truthy (sent (arts ! i)) \<and> ledgerEntry sentMap (arts ! i) \<noteq> None \<longrightarrow>
                 sent (r_articles r ! i) = Bool True \<and> i \<notin> set (r_calls r))
           \<and> (distinct (filter truthy (map link parsedItems)) \<longrightarrow>
                (\<forall>x\<in>set parsedItems.
                    truthy (link x) \<and> link x \<notin> link ` set stateArticles
                      \<and> ledgerEntry sentMap x \<noteq> None \<longrightarrow>
                    (\<exists>i<length arts. arts ! i = newArticle x
                        \<and> sent (r_articles r ! i) = Bool True \<and> i \<notin> set (r_calls r))))))"
proof -
  from mark have as1: "as1 = map (markOne sentMap) arts"
    and mut: "mutated \<longleftrightarrow> (\<exists>a\<in>set arts. markArticle sentMap a \<noteq> None)"
    by (simp_all add: markPreviouslySentArticles_eq)
  have len: "length as1 = length arts" by (simp add: as1)
  have each: "\<forall>i<length arts.
          as1 ! i = (if truthy (sent (arts ! i)) then arts ! i
                     else case ledgerEntry sentMap (arts ! i) of
                            None \<Rightarrow> arts ! i
                          | Some e \<Rightarrow> reconciled (arts ! i) e)"
    by (simp add: as1 markOne_eq)
  have flag: "mutated \<longleftrightarrow> (\<exists>i<length arts. \<not> truthy (sent (arts ! i)) \<and> sent (as1 ! i) = Bool True)"
  proof
    assume mutated
    with mut obtain a where "a \<in> set arts" "markArticle sentMap a \<noteq> None" by blast
    then obtain i where i: "i < length arts" "arts ! i = a" by (auto simp: in_set_conv_nth)
    from \<open>markArticle sentMap a \<noteq> None\<close>
    have "\<not> truthy (sent a) \<and> ledgerEntry sentMap a \<noteq> None"
      using markArticle_Some_iff[of sentMap a] by blast
    with i have "\<not> truthy (sent (arts ! i))" "ledgerEntry sentMap (arts ! i) \<noteq> None"
      by blast+
    with i(1) have "sent (as1 ! i) = Bool True"
      by (auto simp: as1 markOne_eq reconciled_def)
    with i(1) \<open>\<not> truthy (sent (arts ! i))\<close> show
      "\<exists>i<length arts. \<not> truthy (sent (arts ! i)) \<and> sent (as1 ! i) = Bool True" by blast
  next
    assume "\<exists>i<length arts. \<not> truthy (sent (arts ! i)) \<and> sent (as1 ! i) = Bool True"
    then obtain i where i: "i < length arts" "\<not> truthy (sent (arts ! i))"
      "sent (as1 ! i) = Bool True" by blast
    then have "truthy (sent (markOne sentMap (arts ! i)))" by (simp add: as1)
    with i(2) have "ledgerEntry sentMap (arts ! i) \<noteq> None" by (simp add: markOne_sent)
    with i(1,2) have "markArticle sentMap (arts ! i) \<noteq> None" "arts ! i \<in> set arts"
      using markArticle_Some_iff[of sentMap "arts ! i"] by (blast, simp)
    with mut show mutated by blast
  qed
  have cyc: "\<exists>r. processRSS dp toIso lc sink clock testMode stateArticles ex sentMap dirty parsedItems = Inr r
           \<and> (\<forall>i<length arts. \<not> truthy (sent (arts ! i)) \<and> ledgerEntry sentMap (arts ! i) \<noteq> None \<longrightarrow>
                 sent (r_articles r ! i) = Bool True \<and> i \<notin> set (r_calls r))
           \<and> (distinct (filter truthy (map link parsedItems)) \<longrightarrow>
                (\<forall>x\<in>set parsedItems.
                    truthy (link x) \<and> link x \<notin> link ` set stateArticles
                      \<and> ledgerEntry sentMap x \<noteq> None \<longrightarrow>
                    (\<exists>i<length arts. arts ! i = newArticle x
                        \<and> sent (r_articles r ! i) = Bool True \<and> i \<notin> set (r_calls r))))"
    if merge: "mergeArticles dp toIso lc stateArticles parsedItems = Inr (arts, hasChanges)"
      and returns: "\<forall>k a. \<exists>b. sink k a = Inr b"
  proof -
    let ?q = "toSend (sendLimit testMode) as1"
    let ?st0 = "\<lparr> ls_articles = as1, ls_sentMap = sentMap, ls_sentMapDirty = dirty,
             ls_successCount = 0, ls_sendSuccess = False, ls_calls = [] \<rparr>"
    from deliverLoop_returns[OF returns, of clock ?q ?st0]
    obtain st where ret: "deliverLoop sink clock ?q ?st0 = Inr st" by blast
    let ?r = "\<lparr> r_articles = ls_articles st, r_sentMap = ls_sentMap st, r_calls = ls_calls st,
                 r_saveState = (hasChanges \<or> ls_sendSuccess st \<or> mutated \<or> \<not> ex),
                 r_saveSent = ls_sentMapDirty st \<rparr>"
    have run: "processRSS dp toIso lc sink clock testMode stateArticles ex sentMap dirty parsedItems = Inr ?r"
      by (rule processRSS_eq[OF merge mark ret])
    note fr = deliverLoop_frame[OF ret]
    have skip: "sent (ls_articles st ! i) = Bool True \<and> i \<notin> set (ls_calls st)"
      if i: "i < length arts" "\<not> truthy (sent (arts ! i))" "ledgerEntry sentMap (arts ! i) \<noteq> None" for i
    proof -
      from i have s1: "sent (as1 ! i) = Bool True"
        by (auto simp: as1 markOne_eq reconciled_def)
      then have "i \<notin> set ?q" using toSend_props(2)[of "sendLimit testMode" as1] by auto
      with fr(1) fr(3)[of i] s1 show ?thesis by simp
    qed
    have fresh: "\<exists>i<length arts. arts ! i = newArticle x
                        \<and> sent (ls_articles st ! i) = Bool True \<and> i \<notin> set (ls_calls st)"
      if dist: "distinct (filter truthy (map link parsedItems))"
        and x: "x \<in> set parsedItems" "truthy (link x)" "link x \<notin> link ` set stateArticles"
          "ledgerEntry sentMap x \<noteq> None" for x
    proof -
      from fresh_item_merged[OF merge dist x(1,2,3)]
      obtain i where i: "i < length arts" "arts ! i = newArticle x" by blast
      have "\<not> truthy (sent (arts ! i))" "ledgerEntry sentMap (arts ! i) \<noteq> None"
        using i(2) x(4) by (simp_all add: ledgerEntry_newArticle) (simp add: newArticle_def)
      from skip[OF i(1) this] i show ?thesis by blast
    qed
    show ?thesis
    proof (intro exI[of _ ?r] conjI)
      show "processRSS dp toIso lc sink clock testMode stateArticles ex sentMap dirty parsedItems = Inr ?r"
        by (rule run)
      show "\<forall>i<length arts. \<not> truthy (sent (arts ! i)) \<and> ledgerEntry sentMap (arts ! i) \<noteq> None \<longrightarrow>
                 sent (r_articles ?r ! i) = Bool True \<and> i \<notin> set (r_calls ?r)"
        using skip by simp
      show "distinct (filter truthy (map link parsedItems)) \<longrightarrow>
                (\<forall>x\<in>set parsedItems.
                    truthy (link x) \<and> link x \<notin> link ` set stateArticles
                      \<and> ledgerEntry sentMap x \<noteq> None \<longrightarrow>
                    (\<exists>i<length arts. arts ! i = newArticle x
                        \<and> sent (r_articles ?r ! i) = Bool True \<and> i \<notin> set (r_calls ?r)))"
        using fresh by simp
    qed
  qed
  from len each flag cyc show ?thesis by blast
qed

subsection \<open>The cycle theorems on the example data\<close>

lemmas hash_defs = hashIdentifier_def toHex8_def fnv_step_def hexDigit_def

lemmas identity_defs = getArticleIdentity_def trim_def isWhite_def

lemma hash_ga: "hashIdentifier ''ga'' = ''40207425''"
  by (simp add: hash_defs)

lemma hash_b: "hashIdentifier ''b'' = ''e70c2de5''"
  by (simp add: hash_defs)

lemma id_A: "getArticleIdentity (newArticle itemA) = Some ''ga''"
  by (simp add: identity_defs newArticle_def itemA_def js_or_def)

lemma id_B: "getArticleIdentity (newArticle itemB) = Some ''b''"
  by (simp add: identity_defs newArticle_def itemB_def js_or_def)

lemma mark_example:
  "markPreviouslySentArticles [newArticle itemA, newArticle itemB] exampleLedger
     = ([(newArticle itemA)\<lparr>sent := Bool True, sentAt := Str ''2023-12-31T00:00:00.000Z''\<rparr>,
         newArticle itemB], True)"
  by (simp add: markPreviouslySentArticles_def markArticle_def id_A id_B hash_ga hash_b
        exampleLedger_def Map_get_def Let_def)
     (simp add: newArticle_def)

lemma merge_AB:
  "mergeArticles exampleDateParse exampleToISOString codeUnitCompare [] [itemA, itemB]
     = Inr ([newArticle itemA, newArticle itemB], True)"
  by (simp add: merge_defs example_defs)

theorem ledger_reconciliation_witness:
  "markPreviouslySentArticles [newArticle itemA, newArticle itemB] exampleLedger
     = ([(newArticle itemA)\<lparr>sent := Bool True, sentAt := Str ''2023-12-31T00:00:00.000Z''\<rparr>,
         newArticle itemB], True)
   \<and> mergeArticles exampleDateParse exampleToISOString codeUnitCompare [] [itemA, itemB]
         = Inr ([newArticle itemA, newArticle itemB], True)
   \<and> distinct (filter truthy (map link [itemA, itemB]))
   \<and> truthy (link itemA) \<and> link itemA \<notin> link ` set ([] :: article list)
   \<and> ledgerEntry exampleLedger itemA \<noteq> None
   \<and> (\<exists>r. processRSS exampleDateParse exampleToISOString codeUnitCompare
              acceptAll exampleClock False [] False exampleLedger False [itemA, itemB] = Inr r
          \<and> (\<exists>i<2. [newArticle itemA, newArticle itemB] ! i = newArticle itemA
                \<and> sent (r_articles r ! i) = Bool True \<and> i \<notin> set (r_calls r)))"
proof -
  have d: "distinct (filter truthy (map link [itemA, itemB]))" by (simp add: example_defs)
  have x: "truthy (link itemA)" "link itemA \<notin> link ` set ([] :: article list)"
    by (simp_all add: itemA_def)
  have idA: "getArticleIdentity itemA = Some ''ga''"
    by (simp add: identity_defs itemA_def)
  have l: "ledgerEntry exampleLedger itemA \<noteq> None"
    by (simp add: ledgerEntry_def idA hash_ga exampleLedger_def Map_get_def)
  have prem: "mergeArticles exampleDateParse exampleToISOString codeUnitCompare [] [itemA, itemB]
         = Inr ([newArticle itemA, newArticle itemB], True) \<and> (\<forall>k a. \<exists>b. acceptAll k a = Inr b)"
    using merge_AB by (auto simp: acceptAll_def)
  from ledger_reconciliation[OF mark_example,
      of exampleDateParse exampleToISOString codeUnitCompare "[]" "[itemA, itemB]" True
         acceptAll exampleClock False False False] prem
  obtain r where r: "processRSS exampleDateParse exampleToISOString codeUnitCompare
              acceptAll exampleClock False [] False exampleLedger False [itemA, itemB] = Inr r"
    and fresh: "distinct (filter truthy (map link [itemA, itemB])) \<longrightarrow>
                (\<forall>x\<in>set [itemA, itemB].
                    truthy (link x) \<and> link x \<notin> link ` set ([] :: article list)
                      \<and> ledgerEntry exampleLedger x \<noteq> None \<longrightarrow>
                    (\<exists>i<length [newArticle itemA, newArticle itemB].
                        [newArticle itemA, newArticle itemB] ! i = newArticle x
                        \<and> sent (r_articles r ! i) = Bool True \<and> i \<notin> set (r_calls r)))"
    by blast
  from fresh d have "\<forall>x\<in>set [itemA, itemB].
                    truthy (link x) \<and> link x \<notin> link ` set ([] :: article list)
                      \<and> ledgerEntry exampleLedger x \<noteq> None \<longrightarrow>
                    (\<exists>i<length [newArticle itemA, newArticle itemB].
                        [newArticle itemA, newArticle itemB] ! i = newArticle x
                        \<and> sent (r_articles r ! i) = Bool True \<and> i \<notin> set (r_calls r))"
    by (rule mp)
  then have "truthy (link itemA) \<and> link itemA \<notin> link ` set ([] :: article list)
                      \<and> ledgerEntry exampleLedger itemA \<noteq> None \<longrightarrow>
                    (\<exists>i<length [newArticle itemA, newArticle itemB].
                        [newArticle itemA, newArticle itemB] ! i = newArticle itemA
                        \<and> sent (r_articles r ! i) = Bool True \<and> i \<notin> set (r_calls r))"
    by simp
  with x l have "\<exists>i<2. [newArticle itemA, newArticle itemB] ! i = newArticle itemA
                        \<and> sent (r_articles r ! i) = Bool True \<and> i \<notin> set (r_calls r)"
    by (simp add: numeral_2_eq_2)
  with r mark_example merge_AB d x l show ?thesis by blast
qed


lemma example_step:
  "deliverStep firstOnly exampleClock 0 exampleLoopState =
     Inr \<lparr> ls_articles = [(newArticle itemA)\<lparr>sent := Bool True,
                                               sentAt := Str ''2024-01-03T00:00:00.000Z''\<rparr>,
                          newArticle itemB],
           ls_sentMap = [(''40207425'', \<lparr> e_sentAt = Str ''2024-01-03T00:00:00.000Z'',
                                          e_identity = Str ''ga'' \<rparr>)],
           ls_sentMapDirty = True, ls_successCount = 1, ls_sendSuccess = True, ls_calls = [0] \<rparr>"
  by (simp add: deliverStep_def exampleLoopState_def firstOnly_def exampleClock_def Let_def
        setSentEntry_def id_A hash_ga Map_get_def)


subsection \<open>The two passes of pruneSentMap\<close>

lemma Map_delete_filter: "Map_delete (filter P m) k = filter (\<lambda>p. P p \<and> fst p \<noteq> k) m"
  by (simp add: Map_delete_def conj_commute)

lemma pruneInvalid_eq:
  "pruneInvalid dp es (filter P m, mut) =
     (filter (\<lambda>p. P p \<and> fst p \<notin> fst ` {q \<in> set es. \<not> entryValid dp q}) m,
      mut \<or> (\<exists>q\<in>set es. \<not> entryValid dp q))"
proof (induction es arbitrary: P mut)
  case Nil
  show ?case by simp
next
  case (Cons e es)
  obtain hash entry where e: "e = (hash, entry)" by (cases e)
  show ?case
  proof (cases "entryValid dp e")
    case True
    then have step: "pruneInvalid dp (e # es) (filter P m, mut) = pruneInvalid dp es (filter P m, mut)"
      by (simp add: e entryValid_def)
    from True have same: "{q \<in> set (e # es). \<not> entryValid dp q} = {q \<in> set es. \<not> entryValid dp q}"
      by auto
    from True have ex: "(\<exists>q\<in>set (e # es). \<not> entryValid dp q) = (\<exists>q\<in>set es. \<not> entryValid dp q)"
      by auto
    show ?thesis unfolding step same ex by (rule Cons.IH)
  next
    case False
    have "pruneInvalid dp (e # es) (filter P m, mut)
            = pruneInvalid dp es (filter (\<lambda>p. P p \<and> fst p \<noteq> hash) m, True)"
      using False by (auto simp: e entryValid_def Map_delete_filter)
    also have "\<dots> = (filter (\<lambda>p. (P p \<and> fst p \<noteq> hash) \<and> fst p \<notin> fst ` {q \<in> set es. \<not> entryValid dp q}) m,
      True \<or> (\<exists>q\<in>set es. \<not> entryValid dp q))"
      by (rule Cons.IH)
    also have "\<dots> = (filter (\<lambda>p. P p \<and> fst p \<notin> fst ` {q \<in> set (e # es). \<not> entryValid dp q}) m,
      mut \<or> (\<exists>q\<in>set (e # es). \<not> entryValid dp q))"
    proof -
      have img: "fst ` {q \<in> set (e # es). \<not> entryValid dp q}
                   = insert hash (fst ` {q \<in> set es. \<not> entryValid dp q})"
      proof -
        have "{q \<in> set (e # es). \<not> entryValid dp q} = insert e {q \<in> set es. \<not> entryValid dp q}"
          using False by auto
        then show ?thesis by (simp add: e)
      qed
      have "(\<lambda>p. (P p \<and> fst p \<noteq> hash) \<and> fst p \<notin> fst ` {q \<in> set es. \<not> entryValid dp q})
              = (\<lambda>p. P p \<and> fst p \<notin> fst ` {q \<in> set (e # es). \<not> entryValid dp q})"
        unfolding img by auto
      moreover have "(\<exists>q\<in>set (e # es). \<not> entryValid dp q)" using False by simp
      ultimately show ?thesis by simp
    qed
    finally show ?thesis .
  qed
qed

lemma distinct_fst_eq: "distinct (map fst m) \<Longrightarrow> p \<in> set m \<Longrightarrow> q \<in> set m \<Longrightarrow> fst p = fst q \<Longrightarrow> p = q"
  by (metis eq_key_imp_eq_value prod.collapse)

lemma pruneInvalid_map:
  assumes "distinct (map fst m)"
  shows "pruneInvalid dp m (m, False) = (filter (entryValid dp) m, \<exists>q\<in>set m. \<not> entryValid dp q)"
proof -
  have "filter (\<lambda>p. True \<and> fst p \<notin> fst ` {q \<in> set m. \<not> entryValid dp q}) m = filter (entryValid dp) m"
  proof (rule filter_cong[OF refl])
    fix p assume p: "p \<in> set m"
    show "(True \<and> fst p \<notin> fst ` {q \<in> set m. \<not> entryValid dp q}) = entryValid dp p"
      using p distinct_fst_eq[OF assms p] by auto
  qed
  with pruneInvalid_eq[of dp m "\<lambda>p. True" m False] show ?thesis by simp
qed

lemma foldl_Map_delete:
  "foldl (\<lambda>m p. Map_delete m (fst p)) (filter P m) D
     = filter (\<lambda>p. P p \<and> fst p \<notin> fst ` set D) m"
proof (induction D arbitrary: P)
  case Nil
  show ?case by simp
next
  case (Cons d D)
  have "(\<lambda>p. (P p \<and> fst p \<noteq> fst d) \<and> fst p \<notin> fst ` set D)
          = (\<lambda>p. P p \<and> fst p \<notin> fst ` set (d # D))"
    by auto
  then show ?case
    using Cons.IH[of "\<lambda>p. P p \<and> fst p \<noteq> fst d"] by (simp add: Map_delete_filter)
qed

lemma delete_entries:
  assumes dist: "distinct (map fst m)" and sub: "set D \<subseteq> set m"
  shows "foldl (\<lambda>m p. Map_delete m (fst p)) m D = filter (\<lambda>p. p \<notin> set D) m"
proof -
  have "filter (\<lambda>p. True \<and> fst p \<notin> fst ` set D) m = filter (\<lambda>p. p \<notin> set D) m"
  proof (rule filter_cong[OF refl])
    fix p assume p: "p \<in> set m"
    have "fst p \<in> fst ` set D \<longleftrightarrow> p \<in> set D"
    proof
      assume "fst p \<in> fst ` set D"
      then obtain q where q: "q \<in> set D" "fst p = fst q" by auto
      with sub have "q \<in> set m" by auto
      from distinct_fst_eq[OF dist p this q(2)] q(1) show "p \<in> set D" by simp
    qed auto
    then show "(True \<and> fst p \<notin> fst ` set D) = (p \<notin> set D)" by simp
  qed
  with foldl_Map_delete[of "\<lambda>p. True" m D] show ?thesis by simp
qed

lemma entryValid_time:
  "entryValid dp p \<Longrightarrow> dp (e_sentAt (snd p)) = Fin (sentTime dp p)"
  by (cases "dp (e_sentAt (snd p))") (simp_all add: entryValid_def sentTime_def)

lemma compareSentAt_valid:
  assumes "entryValid dp a" "entryValid dp b"
  shows "compareSentAt dp a b = Inr (Fin (sentTime dp a - sentTime dp b))"
  using entryValid_time[OF assms(1)] entryValid_time[OF assms(2)]
  by (simp add: compareSentAt_def)

lemma sort_entries:
  assumes valid: "\<forall>p\<in>set xs. entryValid dp p" and dist: "distinct xs"
  shows "\<exists>ys. Array_sort (compareSentAt dp) xs = Inr ys
           \<and> sorted_wrt (\<lambda>a b. sentTime dp a \<le> sentTime dp b) ys
           \<and> mset ys = mset xs"
proof -
  have "\<exists>ys. Array_sort (compareSentAt dp) xs = Inr ys
           \<and> sorted_wrt (\<lambda>a b. sentTime dp a \<le> sentTime dp b) ys"
  proof (rule Array_sort_sorted[OF _ _ dist])
    fix a b assume "a \<in> set xs" "b \<in> set xs"
    with valid have "compareSentAt dp a b = Inr (Fin (sentTime dp a - sentTime dp b))"
      by (simp add: compareSentAt_valid)
    then show "\<exists>v. compareSentAt dp a b = Inr v \<and>
        (if num_pos v then sentTime dp b \<le> sentTime dp a else sentTime dp a \<le> sentTime dp b)"
      by simp
  next
    fix a b c :: "string \<times> sent_entry"
    assume "sentTime dp a \<le> sentTime dp b" "sentTime dp b \<le> sentTime dp c"
    then show "sentTime dp a \<le> sentTime dp c" by simp
  qed
  then obtain ys where ys: "Array_sort (compareSentAt dp) xs = Inr ys"
      "sorted_wrt (\<lambda>a b. sentTime dp a \<le> sentTime dp b) ys" by blast
  from Array_sort_mset[OF ys(1)] ys show ?thesis by simp
qed

lemma drop_oldest:
  assumes sorted: "sorted_wrt R ys" and m: "mset ys = mset xs" and dist: "distinct xs"
  shows "length (filter (\<lambda>p. p \<notin> set (take k ys)) xs) = length xs - k"
    and "\<forall>kept\<in>set (filter (\<lambda>p. p \<notin> set (take k ys)) xs). \<forall>dropped\<in>set (take k ys). R dropped kept"
    and "set (take k ys) \<subseteq> set xs"
proof -
  have dys: "distinct ys" using m dist by (metis mset_eq_imp_distinct_iff)
  have sets: "set ys = set xs" using m by (rule mset_eq_setD)
  have len: "length ys = length xs" using m by (rule mset_eq_length)
  have split: "ys = take k ys @ drop k ys" by simp
  have disj: "set (take k ys) \<inter> set (drop k ys) = {}"
    using dys by (metis append_take_drop_id distinct_append)
  have un: "set (take k ys) \<union> set (drop k ys) = set xs"
    using sets by (metis append_take_drop_id set_append)
  have keep: "{p \<in> set xs. p \<notin> set (take k ys)} = set (drop k ys)"
    using disj un by auto
  have "length (filter (\<lambda>p. p \<notin> set (take k ys)) xs) = card {p \<in> set xs. p \<notin> set (take k ys)}"
    using dist by (metis distinct_card distinct_filter set_filter)
  also have "\<dots> = card (set (drop k ys))" by (simp only: keep)
  also have "\<dots> = length (drop k ys)" using dys by (simp add: distinct_card)
  finally show "length (filter (\<lambda>p. p \<notin> set (take k ys)) xs) = length xs - k"
    by (simp add: len)
  have "sorted_wrt R (take k ys @ drop k ys)" using sorted by simp
  then have "\<forall>x\<in>set (take k ys). \<forall>y\<in>set (drop k ys). R x y"
    unfolding sorted_wrt_append by blast
  then show "\<forall>kept\<in>set (filter (\<lambda>p. p \<notin> set (take k ys)) xs). \<forall>dropped\<in>set (take k ys). R dropped kept"
    using keep by auto
  show "set (take k ys) \<subseteq> set xs" using un by blast
qed

lemma pruneSentMapWith_over:
  assumes dist: "distinct (map fst m)"
    and over: "maxSize < length (filter (entryValid dp) m)"
  shows "\<exists>sortedEntries.
           Array_sort (compareSentAt dp) (filter (entryValid dp) m) = Inr sortedEntries
         \<and> sorted_wrt (\<lambda>a b. sentTime dp a \<le> sentTime dp b) sortedEntries
         \<and> mset sortedEntries = mset (filter (entryValid dp) m)
         \<and> pruneSentMapWith maxSize dp m =
             Inr (filter (\<lambda>p. p \<notin> set (take (length (filter (entryValid dp) m) - maxSize) sortedEntries))
                    (filter (entryValid dp) m), True)"
proof -
  let ?v = "filter (entryValid dp) m"
  have dv: "distinct (map fst ?v)" using dist by (rule distinct_map_filter)
  then have dv': "distinct ?v" by (simp add: distinct_map)
  from sort_entries[of ?v dp] dv' obtain ys where
    ys: "Array_sort (compareSentAt dp) ?v = Inr ys"
        "sorted_wrt (\<lambda>a b. sentTime dp a \<le> sentTime dp b) ys" "mset ys = mset ?v"
    by auto
  have sub: "set (take (length ?v - maxSize) ys) \<subseteq> set ?v"
    using drop_oldest(3)[OF ys(2) ys(3) dv'] .
  have "pruneSentMapWith maxSize dp m =
          Inr (foldl (\<lambda>m p. Map_delete m (fst p)) ?v (take (length ?v - maxSize) ys), True)"
    using over ys(1) by (simp add: pruneSentMapWith_def pruneInvalid_map[OF dist])
  also have "\<dots> = Inr (filter (\<lambda>p. p \<notin> set (take (length ?v - maxSize) ys)) ?v, True)"
    by (simp only: delete_entries[OF dv sub])
  finally show ?thesis using ys by blast
qed

lemma pruneSentMapWith_under:
  assumes dist: "distinct (map fst m)"
    and under: "length (filter (entryValid dp) m) \<le> maxSize"
  shows "pruneSentMapWith maxSize dp m =
           Inr (filter (entryValid dp) m, \<exists>q\<in>set m. \<not> entryValid dp q)"
  using under by (simp add: pruneSentMapWith_def pruneInvalid_map[OF dist])

lemma pruneLoop_multiRSS_eq:
  "pruneLoop_multiRSS dp cutoffMs es (filter P m, mut) =
     (filter (\<lambda>p. P p \<and> fst p \<notin> fst ` {q \<in> set es. \<not> entryFresh dp cutoffMs q}) m,
      mut \<or> (\<exists>q\<in>set es. \<not> entryFresh dp cutoffMs q))"
proof (induction es arbitrary: P mut)
  case Nil
  show ?case by simp
next
  case (Cons e es)
  obtain hash entry where e: "e = (hash, entry)" by (cases e)
  show ?case
  proof (cases "entryFresh dp cutoffMs e")
    case True
    then have step: "pruneLoop_multiRSS dp cutoffMs (e # es) (filter P m, mut)
                       = pruneLoop_multiRSS dp cutoffMs es (filter P m, mut)"
      by (cases "dp (e_sentAt entry)")
         (simp_all add: e entryFresh_def entryValid_def sentTime_def)
    from True have same: "{q \<in> set (e # es). \<not> entryFresh dp cutoffMs q}
                            = {q \<in> set es. \<not> entryFresh dp cutoffMs q}"
      by auto
    from True have ex: "(\<exists>q\<in>set (e # es). \<not> entryFresh dp cutoffMs q)
                          = (\<exists>q\<in>set es. \<not> entryFresh dp cutoffMs q)"
      by auto
    show ?thesis unfolding step same ex by (rule Cons.IH)
  next
    case False
    have "pruneLoop_multiRSS dp cutoffMs (e # es) (filter P m, mut)
            = pruneLoop_multiRSS dp cutoffMs es (filter (\<lambda>p. P p \<and> fst p \<noteq> hash) m, True)"
      using False
      by (cases "dp (e_sentAt entry)")
         (auto simp: e entryFresh_def entryValid_def sentTime_def Map_delete_filter)
    also have "\<dots> = (filter (\<lambda>p. (P p \<and> fst p \<noteq> hash)
                         \<and> fst p \<notin> fst ` {q \<in> set es. \<not> entryFresh dp cutoffMs q}) m,
      True \<or> (\<exists>q\<in>set es. \<not> entryFresh dp cutoffMs q))"
      by (rule Cons.IH)
    also have "\<dots> = (filter (\<lambda>p. P p \<and> fst p \<notin> fst ` {q \<in> set (e # es). \<not> entryFresh dp cutoffMs q}) m,
      mut \<or> (\<exists>q\<in>set (e # es). \<not> entryFresh dp cutoffMs q))"
    proof -
      have img: "fst ` {q \<in> set (e # es). \<not> entryFresh dp cutoffMs q}
                   = insert hash (fst ` {q \<in> set es. \<not> entryFresh dp cutoffMs q})"
      proof -
        have "{q \<in> set (e # es). \<not> entryFresh dp cutoffMs q}
                = insert e {q \<in> set es. \<not> entryFresh dp cutoffMs q}"
          using False by auto
        then show ?thesis by (simp add: e)
      qed
      have "(\<lambda>p. (P p \<and> fst p \<noteq> hash) \<and> fst p \<notin> fst ` {q \<in> set es. \<not> entryFresh dp cutoffMs q})
              = (\<lambda>p. P p \<and> fst p \<notin> fst ` {q \<in> set (e # es). \<not> entryFresh dp cutoffMs q})"
        unfolding img by auto
      moreover have "(\<exists>q\<in>set (e # es). \<not> entryFresh dp cutoffMs q)" using False by simp
      ultimately show ?thesis by simp
    qed
    finally show ?thesis .
  qed
qed

lemma pruneSentMap_multiRSS_eq:
  assumes "distinct (map fst m)"
  shows "pruneSentMap_multiRSS dp now m =
           (filter (entryFresh dp (now - SENT_MAP_TTL_SECONDS_multiRSS * 1000)) m,
            \<exists>q\<in>set m. \<not> entryFresh dp (now - SENT_MAP_TTL_SECONDS_multiRSS * 1000) q)"
proof -
  let ?c = "now - SENT_MAP_TTL_SECONDS_multiRSS * 1000"
  have "filter (\<lambda>p. True \<and> fst p \<notin> fst ` {q \<in> set m. \<not> entryFresh dp ?c q}) m
          = filter (entryFresh dp ?c) m"
  proof (rule filter_cong[OF refl])
    fix p assume p: "p \<in> set m"
    show "(True \<and> fst p \<notin> fst ` {q \<in> set m. \<not> entryFresh dp ?c q}) = entryFresh dp ?c p"
      using p distinct_fst_eq[OF assms p] by auto
  qed
  with pruneLoop_multiRSS_eq[of dp ?c m "\<lambda>p. True" m False]
  show ?thesis by (simp add: pruneSentMap_multiRSS_def Let_def)
qed

subsection \<open>C6: pruning the ledger\<close>

lemma example_prune_stale:
  "pruneSentMap_multiRSS exampleDateParse 1704326400000 staleLedger = ([], True)"
  by (simp add: pruneSentMap_multiRSS_def SENT_MAP_TTL_SECONDS_multiRSS_def staleLedger_def
      exampleDateParse_def Map_delete_def)

lemma example_prune_broken:
  "pruneSentMap exampleDateParse brokenLedger = Inr ([], True)"
  by (simp add: pruneSentMap_def pruneSentMapWith_def MAX_SENT_MAP_SIZE_def brokenLedger_def
      exampleDateParse_def Map_delete_def)

text \<open>
  C6, as stated, fails on small ledgers. The worker of the multi-feed file prunes by age: a ledger
  of one well-formed entry, sent three days before the pruning, loses that entry although it is
  far under any capacity. The worker of \<^verbatim>\<open>ffxiv-tw-news-api.js\<close> deletes an entry whose
  \<^verbatim>\<open>sentAt\<close> does not parse, whatever the size of the ledger.
\<close>

theorem ledger_pruning_counterexample:
  "length staleLedger \<le> MAX_SENT_MAP_SIZE
   \<and> pruneSentMap_multiRSS exampleDateParse 1704326400000 staleLedger = ([], True)
   \<and> length brokenLedger \<le> MAX_SENT_MAP_SIZE
   \<and> pruneSentMap exampleDateParse brokenLedger = Inr ([], True)"
  using example_prune_stale example_prune_broken
  by (simp add: MAX_SENT_MAP_SIZE_def staleLedger_def brokenLedger_def)

text \<open>
  C6, amended. In \<^verbatim>\<open>ffxiv-tw-news-api.js\<close>, \<^const>\<open>pruneSentMap\<close> is
  \<^const>\<open>pruneSentMapWith\<close> at the capacity 500. On a ledger with distinct keys it returns; it
  first deletes every entry whose \<^verbatim>\<open>sentAt\<close> is not a string or does not parse to a finite time;
  what is kept are well-formed entries of the ledger, in the order of the ledger, as many as the
  capacity allows; when the well-formed entries fit the capacity all of them are kept; and every
  well-formed entry that is deleted was sent no later than every entry kept. In the multi-feed
  worker, \<^const>\<open>pruneSentMap_multiRSS\<close> keeps exactly the well-formed entries sent within the last
  two days and applies no capacity.
\<close>

theorem ledger_pruning:
  assumes "distinct (map fst sentMap)"
  shows "(\<exists>kept mutated.
            pruneSentMapWith maxSize Date_parse sentMap = Inr (kept, mutated)
          \<and> kept = filter (\<lambda>p. p \<in> set kept) (filter (entryValid Date_parse) sentMap)
          \<and> length kept = min maxSize (length (filter (entryValid Date_parse) sentMap))
          \<and> (length (filter (entryValid Date_parse) sentMap) \<le> maxSize
               \<longrightarrow> kept = filter (entryValid Date_parse) sentMap)
          \<and> (\<forall>k\<in>set kept. \<forall>d\<in>set sentMap. entryValid Date_parse d \<and> d \<notin> set kept
               \<longrightarrow> sentTime Date_parse d \<le> sentTime Date_parse k))
       \<and> pruneSentMap Date_parse sentMap = pruneSentMapWith MAX_SENT_MAP_SIZE Date_parse sentMap
       \<and> MAX_SENT_MAP_SIZE = 500
       \<and> pruneSentMap_multiRSS Date_parse now sentMap =
           (filter (entryFresh Date_parse (now - 172800000)) sentMap,
            \<exists>q\<in>set sentMap. \<not> entryFresh Date_parse (now - 172800000) q)"
proof -
  let ?v = "filter (entryValid Date_parse) sentMap"
  have api: "\<exists>kept mutated.
            pruneSentMapWith maxSize Date_parse sentMap = Inr (kept, mutated)
          \<and> kept = filter (\<lambda>p. p \<in> set kept) ?v
          \<and> length kept = min maxSize (length ?v)
          \<and> (length ?v \<le> maxSize \<longrightarrow> kept = ?v)
          \<and> (\<forall>k\<in>set kept. \<forall>d\<in>set sentMap. entryValid Date_parse d \<and> d \<notin> set kept
               \<longrightarrow> sentTime Date_parse d \<le> sentTime Date_parse k)"
  proof (cases "length ?v \<le> maxSize")
    case True
    have "pruneSentMapWith maxSize Date_parse sentMap
            = Inr (?v, \<exists>q\<in>set sentMap. \<not> entryValid Date_parse q)"
      using assms True by (rule pruneSentMapWith_under)
    moreover have "?v = filter (\<lambda>p. p \<in> set ?v) ?v" by (simp cong: filter_cong)
    moreover have "length ?v = min maxSize (length ?v)" using True by simp
    moreover have "\<forall>k\<in>set ?v. \<forall>d\<in>set sentMap. entryValid Date_parse d \<and> d \<notin> set ?v
               \<longrightarrow> sentTime Date_parse d \<le> sentTime Date_parse k"
      by simp
    ultimately show ?thesis by blast
  next
    case False
    then have over: "maxSize < length ?v" by simp
    let ?k = "length ?v - maxSize"
    from pruneSentMapWith_over[OF assms over] obtain ys where
      ys: "sorted_wrt (\<lambda>a b. sentTime Date_parse a \<le> sentTime Date_parse b) ys"
          "mset ys = mset ?v"
          "pruneSentMapWith maxSize Date_parse sentMap
             = Inr (filter (\<lambda>p. p \<notin> set (take ?k ys)) ?v, True)"
      by blast
    let ?kept = "filter (\<lambda>p. p \<notin> set (take ?k ys)) ?v"
    have dv: "distinct ?v" using assms by (simp add: distinct_map)
    note facts = drop_oldest[OF ys(1) ys(2) dv, of ?k]
    have order: "?kept = filter (\<lambda>p. p \<in> set ?kept) ?v"
      by (rule filter_cong[OF refl]) simp
    have len: "length ?kept = min maxSize (length ?v)"
      using facts(1) over by simp
    have old: "\<forall>k\<in>set ?kept. \<forall>d\<in>set sentMap. entryValid Date_parse d \<and> d \<notin> set ?kept
               \<longrightarrow> sentTime Date_parse d \<le> sentTime Date_parse k"
    proof (intro ballI impI)
      fix k d assume k: "k \<in> set ?kept" and d: "d \<in> set sentMap"
        and dd: "entryValid Date_parse d \<and> d \<notin> set ?kept"
      from d dd have "d \<in> set (take ?k ys)" by auto
      with facts(2) k show "sentTime Date_parse d \<le> sentTime Date_parse k" by blast
    qed
    from ys(3) order len old False show ?thesis by blast
  qed
  have ttl: "pruneSentMap_multiRSS Date_parse now sentMap =
           (filter (entryFresh Date_parse (now - 172800000)) sentMap,
            \<exists>q\<in>set sentMap. \<not> entryFresh Date_parse (now - 172800000) q)"
    using pruneSentMap_multiRSS_eq[OF assms, of Date_parse now]
    by (simp add: SENT_MAP_TTL_SECONDS_multiRSS_def)
  from api ttl show ?thesis
    by (simp only: pruneSentMap_def MAX_SENT_MAP_SIZE_def simp_thms)
qed

lemma example_prune_crowded:
  "pruneSentMapWith 1 exampleDateParse crowdedLedger =
     Inr ([(''00000001'',
            \<lparr> e_sentAt = Str ''2024-01-02T00:00:00.000Z'', e_identity = Str ''x'' \<rparr>)], True)"
  by (simp add: pruneSentMapWith_def crowdedLedger_def compareSentAt_def
      exampleDateParse_def Map_delete_def)

theorem ledger_pruning_witness:
  "distinct (map fst crowdedLedger)
   \<and> pruneSentMapWith 1 exampleDateParse crowdedLedger =
       Inr ([(''00000001'',
              \<lparr> e_sentAt = Str ''2024-01-02T00:00:00.000Z'', e_identity = Str ''x'' \<rparr>)], True)
   \<and> length (filter (entryValid exampleDateParse) crowdedLedger) = 2
   \<and> pruneSentMap_multiRSS exampleDateParse 1704326400000 crowdedLedger =
       ([(''00000001'',
          \<lparr> e_sentAt = Str ''2024-01-02T00:00:00.000Z'', e_identity = Str ''x'' \<rparr>)], True)"
proof -
  have d: "distinct (map fst crowdedLedger)" by (simp add: crowdedLedger_def)
  have v: "length (filter (entryValid exampleDateParse) crowdedLedger) = 2"
    by (simp add: crowdedLedger_def entryValid_def exampleDateParse_def)
  have f: "filter (entryFresh exampleDateParse (1704326400000 - 172800000)) crowdedLedger
             = [(''00000001'',
                 \<lparr> e_sentAt = Str ''2024-01-02T00:00:00.000Z'', e_identity = Str ''x'' \<rparr>)]"
    by (simp add: crowdedLedger_def entryFresh_def entryValid_def sentTime_def
        exampleDateParse_def)
  have b: "\<exists>q\<in>set crowdedLedger. \<not> entryFresh exampleDateParse (1704326400000 - 172800000) q"
    by (simp add: crowdedLedger_def entryFresh_def entryValid_def exampleDateParse_def)
  note inst = ledger_pruning[OF d, of 1 exampleDateParse 1704326400000]
  from inst have "pruneSentMap_multiRSS exampleDateParse 1704326400000 crowdedLedger =
           (filter (entryFresh exampleDateParse (1704326400000 - 172800000)) crowdedLedger,
            \<exists>q\<in>set crowdedLedger. \<not> entryFresh exampleDateParse (1704326400000 - 172800000) q)"
    by blast
  with f b have ttl: "pruneSentMap_multiRSS exampleDateParse 1704326400000 crowdedLedger =
       ([(''00000001'',
          \<lparr> e_sentAt = Str ''2024-01-02T00:00:00.000Z'', e_identity = Str ''x'' \<rparr>)], True)"
    by (simp only: simp_thms)
  from d example_prune_crowded v ttl show ?thesis by blast
qed

end
